theory Spec2Isabelle
  imports Complex_Main
begin

section \<open>Hexahedral meshes: topology tables and interpolation-point numbering\<close>

text \<open>
  A shallow embedding of \<^verbatim>\<open>fealpy/mesh/hexahedron_mesh.py\<close>. Integer arrays of numpy
  are lists (a two-dimensional array is a list of rows), indices and node numbers are
  natural numbers, exceptions are values of the type \<open>error\<close>, and a method that may raise
  returns \<open>error + 'a\<close> with \<open>Inl\<close> for the exception.
\<close>

subsection \<open>Errors and tables\<close>

datatype error = ValidationError | TopologyError | IndexError | ValueError | NameError

type_synonym table = "nat list list"

subsection \<open>The local tables of the reference hexahedron\<close>

text \<open>The class attributes of \<^verbatim>\<open>HexahedronMeshDataStructure\<close>, as written in the source.\<close>

definition localEdge :: table where
  "localEdge = [[0, 1], [1, 2], [2, 3], [0, 3],
                [0, 4], [1, 5], [2, 6], [3, 7],
                [4, 5], [5, 6], [6, 7], [4, 7]]"

definition localFace :: table where
  "localFace = [[0, 3, 2, 1], [4, 5, 6, 7],
                [0, 4, 7, 3], [1, 2, 6, 5],
                [0, 1, 5, 4], [2, 3, 7, 6]]"

definition localFace2edge :: table where
  "localFace2edge = [[3, 2, 1, 0], [8, 9, 10, 11],
                     [4, 11, 7, 3], [1, 6, 9, 5],
                     [0, 5, 8, 4], [2, 7, 10, 6]]"

subsection \<open>The mesh data structure\<close>

text \<open>
  The tables that the methods of \<^verbatim>\<open>HexahedronMesh\<close> read from \<^verbatim>\<open>self.ds\<close> and
  \<^verbatim>\<open>self.entity\<close>: \<open>NN\<close> is the number of nodes, \<open>cell\<close> is \<open>NC \<times> 8\<close>, \<open>face\<close> is
  \<open>NF \<times> 4\<close>, \<open>edge\<close> is \<open>NE \<times> 2\<close>, \<open>cell2face\<close> is \<open>NC \<times> 6\<close>, \<open>cell2edge\<close> is
  \<open>NC \<times> 12\<close> and \<open>face2edge\<close> is \<open>NF \<times> 4\<close>.
\<close>

record mesh_ds =
  NN :: nat
  cell :: table
  face :: table
  edge :: table
  cell2face :: table
  cell2edge :: table
  face2edge :: table

definition NE :: "mesh_ds \<Rightarrow> nat" where
  "NE m = length (edge m)"

definition NF :: "mesh_ds \<Rightarrow> nat" where
  "NF m = length (face m)"

definition NC :: "mesh_ds \<Rightarrow> nat" where
  "NC m = length (cell m)"

subsection \<open>Construction of the tables\<close>

text \<open>
  Modelled from the spec: the constructor of the data structure
  (\<^verbatim>\<open>Mesh3dDataStructure.__init__\<close> and its \<^verbatim>\<open>construct\<close>, in
  \<^verbatim>\<open>mesh_data_structure.py\<close>) is not among the source files. The builder below follows
  section 4.1 of the specification: every cell is validated (eight node indices, no
  repetition); the local faces of the cells are visited in cell order and keyed by their
  sorted node tuple; a key is inserted on first sight with the local order of the cell
  that registers it, a second cell is recorded when it meets the key again, and a third
  claim is a \<open>TopologyError\<close>. Edges are keyed likewise and stored as their sorted pair.
\<close>

record face_entry =
  fe_nodes :: "nat list"
  fe_cell0 :: nat
  fe_slot0 :: nat
  fe_cell1 :: "nat option"

definition face_key :: "nat list \<Rightarrow> nat list" where
  "face_key ns = sort ns"

definition valid_cell :: "nat list \<Rightarrow> bool" where
  "valid_cell c \<longleftrightarrow> length c = 8 \<and> distinct c"

definition cell_faces :: "nat list \<Rightarrow> nat list list" where
  "cell_faces c = map (map (\<lambda>v. c ! v)) localFace"

definition cell_edges :: "nat list \<Rightarrow> nat list list" where
  "cell_edges c = map (map (\<lambda>v. c ! v)) localEdge"

text \<open>One claim of a face: the claiming cell, its local slot and the face's nodes in
  the cell's local order.\<close>

type_synonym face_claim = "nat \<times> nat \<times> nat list"

definition cell_face_claims :: "nat \<Rightarrow> nat list \<Rightarrow> face_claim list" where
  "cell_face_claims c cl = map (\<lambda>i. (c, i, cell_faces cl ! i)) [0..<6]"

definition all_face_claims :: "table \<Rightarrow> face_claim list" where
  "all_face_claims cells = concat (map (\<lambda>(c, cl). cell_face_claims c cl) (enumerate 0 cells))"

fun register_face :: "face_claim \<Rightarrow> face_entry list \<Rightarrow> error + face_entry list" where
  "register_face (c, i, ns) [] =
     Inr [\<lparr>fe_nodes = ns, fe_cell0 = c, fe_slot0 = i, fe_cell1 = None\<rparr>]"
| "register_face (c, i, ns) (e # es) =
     (if face_key (fe_nodes e) = face_key ns then
        (case fe_cell1 e of
           None \<Rightarrow> Inr (e\<lparr>fe_cell1 := Some c\<rparr> # es)
         | Some c1 \<Rightarrow> Inl TopologyError)
      else
        (case register_face (c, i, ns) es of
           Inl err \<Rightarrow> Inl err
         | Inr es' \<Rightarrow> Inr (e # es')))"

fun register_faces :: "face_claim list \<Rightarrow> face_entry list \<Rightarrow> error + face_entry list" where
  "register_faces [] es = Inr es"
| "register_faces (cl # cls) es =
     (case register_face cl es of
        Inl err \<Rightarrow> Inl err
      | Inr es' \<Rightarrow> register_faces cls es')"

fun index_of :: "'a \<Rightarrow> 'a list \<Rightarrow> nat" where
  "index_of k [] = 0"
| "index_of k (x # xs) = (if k = x then 0 else Suc (index_of k xs))"

fun register_edge :: "nat list \<Rightarrow> nat list list \<Rightarrow> nat list list" where
  "register_edge ns es = (if sort ns \<in> set es then es else es @ [sort ns])"

definition build_edges :: "table \<Rightarrow> nat list list" where
  "build_edges cells = fold register_edge (concat (map cell_edges cells)) []"

definition build_ds :: "nat \<Rightarrow> table \<Rightarrow> error + mesh_ds" where
  "build_ds n cells =
     (if \<not> list_all valid_cell cells then Inl ValidationError
      else
        (case register_faces (all_face_claims cells) [] of
           Inl err \<Rightarrow> Inl err
         | Inr fes \<Rightarrow>
             (let edges = build_edges cells;
                  fkeys = map (\<lambda>e. face_key (fe_nodes e)) fes;
                  c2f = map (\<lambda>cl. map (\<lambda>ns. index_of (face_key ns) fkeys) (cell_faces cl)) cells;
                  c2e = map (\<lambda>cl. map (\<lambda>ns. index_of (sort ns) edges) (cell_edges cl)) cells;
                  f2e = map (\<lambda>e. map (\<lambda>l. c2e ! fe_cell0 e ! l) (localFace2edge ! fe_slot0 e)) fes
              in Inr \<lparr>NN = n, cell = cells, face = map fe_nodes fes, edge = edges,
                      cell2face = c2f, cell2edge = c2e, face2edge = f2e\<rparr>)))"

subsection \<open>The mesh object\<close>

text \<open>
  \<^verbatim>\<open>HexahedronMesh.__init__(self, node, cell)\<close> stores the node array and builds the data
  structure from \<open>node.shape[0]\<close> and \<open>cell\<close>. Coordinates are the rational values of
  the float literals.
\<close>

type_synonym point = "rat \<times> rat \<times> rat"

record hexmesh =
  node :: "point list"
  ds :: mesh_ds

definition HexahedronMesh :: "point list \<Rightarrow> table \<Rightarrow> error + hexmesh" where
  "HexahedronMesh nd cl =
     (case build_ds (length nd) cl of
        Inl err \<Rightarrow> Inl err
      | Inr d \<Rightarrow> Inr \<lparr>node = nd, ds = d\<rparr>)"

definition from_one_hexahedron_node :: "point list" where
  "from_one_hexahedron_node =
     [(0, 0, 0), (1, 0, 0), (1, 1, 0), (0, 0, 0),
      (0, 0, 1), (1, 0, 1), (1, 1, 1), (0, 0, 1)]"

definition from_one_hexahedron_cell :: table where
  "from_one_hexahedron_cell = [[0, 1, 2, 3, 4, 5, 6, 7]]"

definition from_one_hexahedron :: "error + hexmesh" where
  "from_one_hexahedron = HexahedronMesh from_one_hexahedron_node from_one_hexahedron_cell"

subsection \<open>Counting interpolation points\<close>

text \<open>
  \<^verbatim>\<open>number_of_global_ipoints(self, p)\<close>: one arithmetic expression over Python integers,
  with no test on \<open>p\<close> and no \<^verbatim>\<open>raise\<close>.
\<close>

definition number_of_global_ipoints :: "mesh_ds \<Rightarrow> int \<Rightarrow> error + int" where
  "number_of_global_ipoints m p =
     Inr (int (NN m) + int (NE m) * (p - 1) + int (NF m) * (p - 1)^2 + int (NC m) * (p - 1)^3)"

subsection \<open>Array operations of numpy\<close>

text \<open>
  \<^verbatim>\<open>np.repeat(xs, n)\<close> repeats every element \<open>n\<close> times, \<^verbatim>\<open>np.tile(xs, n)\<close> repeats the
  whole array \<open>n\<close> times, \<^verbatim>\<open>np.where(mask)[0]\<close> lists the positions where the mask holds.
  \<^verbatim>\<open>row[ps] = vs\<close> writes \<open>vs\<close> at the positions \<open>ps\<close>, one after the other.
  \<^verbatim>\<open>np.argsort\<close> lists the positions of a row in the order of their entries; on a row
  without repeated entries there is one such list. On repeated entries the order that
  numpy gives is not fixed by its default sort; the definition takes the positions in
  increasing order there.
\<close>

definition np_repeat :: "'a list \<Rightarrow> nat \<Rightarrow> 'a list" where
  "np_repeat xs n = concat (map (replicate n) xs)"

definition np_tile :: "'a list \<Rightarrow> nat \<Rightarrow> 'a list" where
  "np_tile xs n = concat (replicate n xs)"

definition np_where :: "bool list \<Rightarrow> nat list" where
  "np_where bs = filter (\<lambda>q. bs ! q) [0..<length bs]"

fun scatter :: "'a list \<Rightarrow> nat list \<Rightarrow> 'a list \<Rightarrow> 'a list" where
  "scatter row (q # qs) (v # vs) = scatter (row[q := v]) qs vs"
| "scatter row qs vs = row"

definition argsort :: "nat list \<Rightarrow> nat list" where
  "argsort xs = map snd (sort_key fst (zip xs [0..<length xs]))"

text \<open>\<^verbatim>\<open>np.arange(lo, lo + n * k).reshape(n, -1)\<close>, row \<open>r\<close>: the \<open>k\<close> values from
  \<open>lo + r * k\<close> on. Reshaping an empty array to \<open>(0, -1)\<close> raises \<open>ValueError\<close>; the
  callers test \<open>n = 0\<close> before.\<close>

definition arange_row :: "nat \<Rightarrow> nat \<Rightarrow> nat \<Rightarrow> nat list" where
  "arange_row lo k r = [lo + r * k ..< lo + r * k + k]"

subsection \<open>Interpolation points on edges\<close>

text \<open>
  Modelled from the spec: \<^verbatim>\<open>edge_to_ipoint\<close> is inherited from \<^verbatim>\<open>mesh_base.py\<close>, which
  is not among the source files. By sections 3 and 4.3 of the specification an edge owns
  its two end nodes and \<open>p - 1\<close> interior points, numbered contiguously from
  \<open>edgeBase = NN\<close> in edge order; the row of an edge lists them from its first node to
  its second.
\<close>

definition edge_to_ipoint :: "mesh_ds \<Rightarrow> nat \<Rightarrow> table" where
  "edge_to_ipoint m p =
     map (\<lambda>(e, ns). [ns ! 0] @ arange_row (NN m) (p - 1) e @ [ns ! 1]) (enumerate 0 (edge m))"

subsection \<open>Interpolation points on faces\<close>

text \<open>
  \<^verbatim>\<open>face_to_ipoint(self, p)\<close>, for \<open>p \<ge> 1\<close>. The two columns of \<^verbatim>\<open>multiIndex\<close>, the four
  rows of \<^verbatim>\<open>dofidx\<close>, the table \<^verbatim>\<open>localEdge\<close> of the method, the loop over the four
  edges of a face (the forward write, then the reversed write on the rows where the first
  local end node differs from the first node of the edge), and the block of interior
  points. The tables are the arrays of the data structure, \<^verbatim>\<open>face\<close> and \<^verbatim>\<open>face2edge\<close> with
  \<open>NF\<close> rows of four entries and \<^verbatim>\<open>edge\<close> with rows of two (\<open>face_tables_ok\<close>); the
  definitions are meant for such tables and for \<open>p \<ge> 1\<close>, where \<open>p - 1\<close> is a natural
  number. An entry of \<^verbatim>\<open>face2edge\<close> that is no edge number is an \<open>IndexError\<close> of the
  indexing \<^verbatim>\<open>edge[ge, 0]\<close>; with no face, the reshape to \<open>(0, -1)\<close> is a \<open>ValueError\<close>.
\<close>

definition multiIndex2_0 :: "nat \<Rightarrow> nat list" where
  "multiIndex2_0 p = np_repeat [0..<p + 1] (p + 1)"

definition multiIndex2_1 :: "nat \<Rightarrow> nat list" where
  "multiIndex2_1 p = np_tile [0..<p + 1] (p + 1)"

definition face_dofidx :: "nat \<Rightarrow> nat list list" where
  "face_dofidx p =
     [np_where (map (\<lambda>b. b = 0) (multiIndex2_1 p)),
      np_where (map (\<lambda>a. a = p) (multiIndex2_0 p)),
      np_where (map (\<lambda>b. b = p) (multiIndex2_1 p)),
      np_where (map (\<lambda>a. a = 0) (multiIndex2_0 p))]"

definition face_localEdge :: table where
  "face_localEdge = [[0, 1], [1, 2], [3, 2], [0, 3]]"

definition face_indof :: "nat \<Rightarrow> nat list" where
  "face_indof p =
     np_where (map2 (\<lambda>a b. (0 < a \<and> 0 < b) \<and> (a < p \<and> b < p)) (multiIndex2_0 p) (multiIndex2_1 p))"

definition face_edge_row :: "mesh_ds \<Rightarrow> nat \<Rightarrow> table \<Rightarrow> nat \<Rightarrow> nat \<Rightarrow> nat list \<Rightarrow> nat list" where
  "face_edge_row m p e2ip i f row =
     (let ge = face2edge m ! f ! i;
          row1 = scatter row (face_dofidx p ! i) (e2ip ! ge)
      in if face m ! f ! (face_localEdge ! i ! 0) \<noteq> edge m ! ge ! 0
         then scatter row1 (face_dofidx p ! i) (rev (e2ip ! ge))
         else row1)"

definition face_edge_step :: "mesh_ds \<Rightarrow> nat \<Rightarrow> table \<Rightarrow> nat \<Rightarrow> table \<Rightarrow> table" where
  "face_edge_step m p e2ip i tbl =
     map (\<lambda>(f, row). face_edge_row m p e2ip i f row) (enumerate 0 tbl)"

definition face_interior_step :: "mesh_ds \<Rightarrow> nat \<Rightarrow> table \<Rightarrow> table" where
  "face_interior_step m p tbl =
     map (\<lambda>(f, row). scatter row (face_indof p)
                        (arange_row (NN m + NE m * (p - 1)) ((p - 1)^2) f))
         (enumerate 0 tbl)"

definition face_tables_ok :: "mesh_ds \<Rightarrow> bool" where
  "face_tables_ok m \<longleftrightarrow>
     length (face2edge m) = NF m \<and>
     (\<forall>f < NF m. length (face m ! f) = 4 \<and> length (face2edge m ! f) = 4) \<and>
     (\<forall>e < NE m. length (edge m ! e) = 2)"

definition face_index_ok :: "mesh_ds \<Rightarrow> bool" where
  "face_index_ok m \<longleftrightarrow> (\<forall>f < NF m. \<forall>i < 4. face2edge m ! f ! i < NE m)"

definition face_to_ipoint :: "mesh_ds \<Rightarrow> nat \<Rightarrow> error + table" where
  "face_to_ipoint m p =
     (if \<not> face_index_ok m then Inl IndexError
      else if NF m = 0 then Inl ValueError
      else
        Inr (face_interior_step m p
              (fold (face_edge_step m p (edge_to_ipoint m p)) [0..<4]
                 (replicate (NF m) (replicate ((p + 1)^2) 0)))))"

text \<open>
  Every edge of the face \<open>f\<close> joins the two local end nodes of its slot: the edge in slot
  \<open>j\<close> has two nodes, the nodes \<open>localEdge[j, 0]\<close> and \<open>localEdge[j, 1]\<close> of the face, in
  either order.
\<close>

definition face_edges_join :: "mesh_ds \<Rightarrow> nat \<Rightarrow> bool" where
  "face_edges_join m f \<longleftrightarrow>
     list_all (\<lambda>j. length (edge m ! (face2edge m ! f ! j)) = 2 \<and>
                   set (edge m ! (face2edge m ! f ! j)) =
                     {face m ! f ! (face_localEdge ! j ! 0), face m ! f ! (face_localEdge ! j ! 1)})
       [0..<4]"

subsection \<open>Interpolation points on cells\<close>

text \<open>
  \<^verbatim>\<open>cell_to_ipoint(self, p)\<close>, for \<open>p \<ge> 1\<close>: the three columns of \<^verbatim>\<open>multiIndex\<close>, the six
  rows of \<^verbatim>\<open>dofidx\<close>, \<^verbatim>\<open>lf2e\<close> and \<^verbatim>\<open>face2edge\<close> with their columns reordered by
  \<open>[3, 0, 1, 2]\<close>, \<^verbatim>\<open>multiIndex2d\<close> with its four columns, the three \<^verbatim>\<open>argsort\<close> calls and
  their composition, the gather from \<^verbatim>\<open>face2ipoint\<close>, and the block of interior points.
  The tables are the arrays of the data structure, with \<open>NC\<close> rows of 8, 6 and 12 entries
  in \<^verbatim>\<open>cell\<close>, \<^verbatim>\<open>cell2face\<close> and \<^verbatim>\<open>cell2edge\<close> (\<open>cell_tables_ok\<close>); the definitions are
  meant for such tables and for \<open>p \<ge> 1\<close>. An entry of \<^verbatim>\<open>cell2face\<close> that is no face number
  is an \<open>IndexError\<close>; with no cell, the reshape to \<open>(0, -1)\<close> is a \<open>ValueError\<close>.
\<close>

definition multiIndex3_0 :: "nat \<Rightarrow> nat list" where
  "multiIndex3_0 p = np_repeat [0..<p + 1] ((p + 1)^2)"

definition multiIndex3_1 :: "nat \<Rightarrow> nat list" where
  "multiIndex3_1 p = np_tile (np_repeat [0..<p + 1] (p + 1)) (p + 1)"

definition multiIndex3_2 :: "nat \<Rightarrow> nat list" where
  "multiIndex3_2 p = np_tile [0..<p + 1] ((p + 1)^2)"

definition cell_dofidx :: "nat \<Rightarrow> nat list list" where
  "cell_dofidx p =
     [np_where (map (\<lambda>k. k = 0) (multiIndex3_2 p)),
      np_where (map (\<lambda>k. k = p) (multiIndex3_2 p)),
      np_where (map (\<lambda>i. i = 0) (multiIndex3_0 p)),
      np_where (map (\<lambda>i. i = p) (multiIndex3_0 p)),
      np_where (map (\<lambda>j. j = 0) (multiIndex3_1 p)),
      np_where (map (\<lambda>j. j = p) (multiIndex3_1 p))]"

definition cell_indof :: "nat \<Rightarrow> nat list" where
  "cell_indof p =
     np_where (map2 (\<lambda>i (j, k). (0 < i \<and> 0 < j \<and> 0 < k) \<and> (i < p \<and> j < p \<and> k < p))
                 (multiIndex3_0 p) (zip (multiIndex3_1 p) (multiIndex3_2 p)))"

definition col_reorder :: "nat list" where
  "col_reorder = [3, 0, 1, 2]"

definition lf2e :: table where
  "lf2e = map (\<lambda>row. map (\<lambda>j. row ! j) col_reorder)
            [[0, 1, 2, 3], [8, 9, 10, 11],
             [3, 7, 11, 4], [1, 6, 9, 5],
             [0, 5, 8, 4], [2, 6, 10, 7]]"

definition multiIndex2d :: "nat \<Rightarrow> nat list list" where
  "multiIndex2d p =
     map2 (\<lambda>j k. [j, k, p - j, p - k])
       (take ((p + 1)^2) (multiIndex3_1 p)) (take ((p + 1)^2) (multiIndex3_2 p))"

definition sort_match :: "nat list \<Rightarrow> nat list \<Rightarrow> nat list" where
  "sort_match g l =
     (let idx0 = argsort g; idx1 = argsort (argsort l)
      in map (\<lambda>r. idx0 ! r) idx1)"

definition cell_face_idx :: "mesh_ds \<Rightarrow> nat \<Rightarrow> nat \<Rightarrow> nat \<Rightarrow> nat list" where
  "cell_face_idx m p i c =
     (let gfe = map (\<lambda>j. face2edge m ! (cell2face m ! c ! i) ! j) col_reorder;
          lfe = map (\<lambda>j. cell2edge m ! c ! j) (lf2e ! i);
          idx0 = sort_match gfe lfe
      in map (\<lambda>mi. mi ! (idx0 ! 0) * (p + 1) + mi ! (idx0 ! 1)) (multiIndex2d p))"

definition cell_face_row :: "mesh_ds \<Rightarrow> nat \<Rightarrow> table \<Rightarrow> nat \<Rightarrow> nat \<Rightarrow> nat list \<Rightarrow> nat list" where
  "cell_face_row m p f2ip i c row =
     scatter row (cell_dofidx p ! i)
       (map (\<lambda>q. f2ip ! (cell2face m ! c ! i) ! q) (cell_face_idx m p i c))"

definition cell_face_step :: "mesh_ds \<Rightarrow> nat \<Rightarrow> table \<Rightarrow> nat \<Rightarrow> table \<Rightarrow> table" where
  "cell_face_step m p f2ip i tbl =
     map (\<lambda>(c, row). cell_face_row m p f2ip i c row) (enumerate 0 tbl)"

definition cell_interior_step :: "mesh_ds \<Rightarrow> nat \<Rightarrow> table \<Rightarrow> table" where
  "cell_interior_step m p tbl =
     map (\<lambda>(c, row). scatter row (cell_indof p)
                        (arange_row (NN m + NE m * (p - 1) + NF m * (p - 1)^2) ((p - 1)^3) c))
         (enumerate 0 tbl)"

definition cell_tables_ok :: "mesh_ds \<Rightarrow> bool" where
  "cell_tables_ok m \<longleftrightarrow>
     face_tables_ok m \<and>
     length (cell2face m) = NC m \<and> length (cell2edge m) = NC m \<and>
     (\<forall>c < NC m. length (cell m ! c) = 8 \<and> length (cell2face m ! c) = 6 \<and>
                  length (cell2edge m ! c) = 12)"

definition cell_index_ok :: "mesh_ds \<Rightarrow> bool" where
  "cell_index_ok m \<longleftrightarrow> (\<forall>c < NC m. \<forall>i < 6. cell2face m ! c ! i < NF m)"

definition cell_to_ipoint :: "mesh_ds \<Rightarrow> nat \<Rightarrow> error + table" where
  "cell_to_ipoint m p =
     (case face_to_ipoint m p of
        Inl err \<Rightarrow> Inl err
      | Inr f2ip \<Rightarrow>
          if \<not> cell_index_ok m then Inl IndexError
          else if NC m = 0 then Inl ValueError
          else
            Inr (cell_interior_step m p
                  (fold (cell_face_step m p f2ip) [0..<6]
                     (replicate (NC m) (replicate ((p + 1)^3) 0)))))"

text \<open>
  \<^verbatim>\<open>cell_to_ipoint0(self, p)\<close>, the second routine: its own \<^verbatim>\<open>dofidx\<close>, its
  \<^verbatim>\<open>localFace\<close>, the four pairs of \<^verbatim>\<open>multiIndex0\<close>, and the match of the node tuples of
  the face and of the cell's local face.
\<close>

definition cell_dofidx0 :: "nat \<Rightarrow> nat list list" where
  "cell_dofidx0 p =
     [np_where (map (\<lambda>k. k = 0) (multiIndex3_2 p)),
      np_where (map (\<lambda>k. k = p) (multiIndex3_2 p)),
      np_where (map (\<lambda>j. j = 0) (multiIndex3_1 p)),
      np_where (map (\<lambda>j. j = p) (multiIndex3_1 p)),
      np_where (map (\<lambda>i. i = 0) (multiIndex3_0 p)),
      np_where (map (\<lambda>i. i = p) (multiIndex3_0 p))]"

definition localFace0 :: table where
  "localFace0 = [[0, 1, 2, 3], [4, 5, 6, 7],
                 [0, 3, 7, 4], [1, 2, 6, 5],
                 [0, 1, 5, 4], [3, 2, 6, 7]]"

definition multiIndex0 :: "nat \<Rightarrow> (nat \<times> nat) list list" where
  "multiIndex0 p =
     map2 (\<lambda>a b. [(p - a, p - b), (a, p - b), (a, b), (p - a, b)])
       (multiIndex2_0 p) (multiIndex2_1 p)"

definition cell_face_idx0 :: "mesh_ds \<Rightarrow> nat \<Rightarrow> nat \<Rightarrow> nat \<Rightarrow> nat list" where
  "cell_face_idx0 m p i c =
     (let gf = face m ! (cell2face m ! c ! i);
          lf = map (\<lambda>v. cell m ! c ! v) (localFace0 ! i);
          idx0 = sort_match gf lf
      in map (\<lambda>mi. fst (mi ! (idx0 ! 2)) * (p + 1) + snd (mi ! (idx0 ! 2))) (multiIndex0 p))"

definition cell_face_row0 :: "mesh_ds \<Rightarrow> nat \<Rightarrow> table \<Rightarrow> nat \<Rightarrow> nat \<Rightarrow> nat list \<Rightarrow> nat list" where
  "cell_face_row0 m p f2ip i c row =
     scatter row (cell_dofidx0 p ! i)
       (map (\<lambda>q. f2ip ! (cell2face m ! c ! i) ! q) (cell_face_idx0 m p i c))"

definition cell_face_step0 :: "mesh_ds \<Rightarrow> nat \<Rightarrow> table \<Rightarrow> nat \<Rightarrow> table \<Rightarrow> table" where
  "cell_face_step0 m p f2ip i tbl =
     map (\<lambda>(c, row). cell_face_row0 m p f2ip i c row) (enumerate 0 tbl)"

definition cell_to_ipoint0 :: "mesh_ds \<Rightarrow> nat \<Rightarrow> error + table" where
  "cell_to_ipoint0 m p =
     (case face_to_ipoint m p of
        Inl err \<Rightarrow> Inl err
      | Inr f2ip \<Rightarrow>
          if \<not> cell_index_ok m then Inl IndexError
          else if NC m = 0 then Inl ValueError
          else
            Inr (cell_interior_step m p
                  (fold (cell_face_step0 m p f2ip) [0..<6]
                     (replicate (NC m) (replicate ((p + 1)^3) 0)))))"

subsection \<open>Coordinates of the interpolation points\<close>

text \<open>
  \<^verbatim>\<open>interpolation_points(self, p)\<close> computes, for every cell, the coordinates of its
  \<open>(p + 1)^3\<close> local points: \<^verbatim>\<open>p04\<close>, \<^verbatim>\<open>p37\<close>, \<^verbatim>\<open>p15\<close> and \<^verbatim>\<open>p26\<close> run along the four
  edges from the vertices 0, 3, 1, 2 to the vertices 4, 7, 5, 6, \<^verbatim>\<open>p0\<close> runs from
  \<^verbatim>\<open>p04\<close> to \<^verbatim>\<open>p37\<close>, \<^verbatim>\<open>p1\<close> from \<^verbatim>\<open>p15\<close> to \<^verbatim>\<open>p26\<close>, and the points of the cell run
  from \<^verbatim>\<open>p0\<close> to \<^verbatim>\<open>p1\<close>. It writes them at the rows of \<^verbatim>\<open>cell_to_ipoint(p)\<close>: the
  local point \<open>r\<close> of cell \<open>c\<close> is the physical point \<open>cell_ipoint_coords nd c p ! r\<close>.
  \<open>linspace a b p t\<close> is entry \<open>t\<close> of \<^verbatim>\<open>np.linspace(a, b, p+1, endpoint=True)\<close>.
\<close>

fun linspace :: "point \<Rightarrow> point \<Rightarrow> nat \<Rightarrow> nat \<Rightarrow> point" where
  "linspace (x0, y0, z0) (x1, y1, z1) p t =
     (x0 + of_nat t * ((x1 - x0) / of_nat p),
      y0 + of_nat t * ((y1 - y0) / of_nat p),
      z0 + of_nat t * ((z1 - z0) / of_nat p))"

definition cell_ipoint_coords :: "point list \<Rightarrow> nat list \<Rightarrow> nat \<Rightarrow> point list" where
  "cell_ipoint_coords nd c p =
     concat (map (\<lambda>i. concat (map (\<lambda>j. map (\<lambda>k.
       linspace
         (linspace (linspace (nd ! (c ! 0)) (nd ! (c ! 4)) p k)
                   (linspace (nd ! (c ! 3)) (nd ! (c ! 7)) p k) p j)
         (linspace (linspace (nd ! (c ! 1)) (nd ! (c ! 5)) p k)
                   (linspace (nd ! (c ! 2)) (nd ! (c ! 6)) p k) p j) p i)
       [0..<p + 1]) [0..<p + 1])) [0..<p + 1])"

text \<open>For \<open>p = 1\<close> the eight local points are the vertices of the cell, in this order.\<close>

definition corner_order :: "nat list" where
  "corner_order = [0, 4, 3, 7, 1, 5, 2, 6]"

definition cell_to_node_reordered :: "mesh_ds \<Rightarrow> table" where
  "cell_to_node_reordered m = map (\<lambda>c. map (\<lambda>v. c ! v) corner_order) (cell m)"

subsection \<open>Two concrete meshes\<close>

text \<open>The tables of the mesh with the single cell \<open>[0, 1, 2, 3, 4, 5, 6, 7]\<close>.\<close>

definition one_hex_ds :: mesh_ds where
  "one_hex_ds =
     \<lparr>NN = 8, cell = [[0, 1, 2, 3, 4, 5, 6, 7]],
      face = [[0, 3, 2, 1], [4, 5, 6, 7], [0, 4, 7, 3], [1, 2, 6, 5], [0, 1, 5, 4], [2, 3, 7, 6]],
      edge = [[0, 1], [1, 2], [2, 3], [0, 3], [0, 4], [1, 5], [2, 6], [3, 7],
              [4, 5], [5, 6], [6, 7], [4, 7]],
      cell2face = [[0, 1, 2, 3, 4, 5]],
      cell2edge = [[0, 1, 2, 3, 4, 5, 6, 7, 8, 9, 10, 11]],
      face2edge = [[3, 2, 1, 0], [8, 9, 10, 11], [4, 11, 7, 3], [1, 6, 9, 5],
                   [0, 5, 8, 4], [2, 7, 10, 6]]\<rparr>"

text \<open>
  Two unit cubes side by side, \<open>[0,1]^3\<close> and \<open>[1,2] \<times> [0,1] \<times> [0,1]\<close>, sharing the face
  \<open>x = 1\<close> with the nodes 1, 2, 6, 5. The second cell numbers its vertices from the
  corner \<open>(2, 0, 1)\<close>: its local axes are \<open>-z\<close>, \<open>-x\<close> and \<open>y\<close>, a right-handed frame, and
  the shared face is its local face 5.
\<close>

definition twisted_node :: "point list" where
  "twisted_node =
     [(0, 0, 0), (1, 0, 0), (1, 1, 0), (0, 1, 0),
      (0, 0, 1), (1, 0, 1), (1, 1, 1), (0, 1, 1),
      (2, 0, 1), (2, 0, 0), (2, 1, 1), (2, 1, 0)]"

definition twisted_cell :: table where
  "twisted_cell = [[0, 1, 2, 3, 4, 5, 6, 7], [8, 9, 1, 5, 10, 11, 2, 6]]"

definition twisted_ds :: mesh_ds where
  "twisted_ds =
     \<lparr>NN = 12, cell = [[0, 1, 2, 3, 4, 5, 6, 7], [8, 9, 1, 5, 10, 11, 2, 6]],
      face = [[0, 3, 2, 1], [4, 5, 6, 7], [0, 4, 7, 3], [1, 2, 6, 5], [0, 1, 5, 4], [2, 3, 7, 6],
              [8, 5, 1, 9], [10, 11, 2, 6], [8, 10, 6, 5], [9, 1, 2, 11], [8, 9, 11, 10]],
      edge = [[0, 1], [1, 2], [2, 3], [0, 3], [0, 4], [1, 5], [2, 6], [3, 7],
              [4, 5], [5, 6], [6, 7], [4, 7], [8, 9], [1, 9], [5, 8], [8, 10],
              [9, 11], [10, 11], [2, 11], [6, 10]],
      cell2face = [[0, 1, 2, 3, 4, 5], [6, 7, 8, 9, 10, 3]],
      cell2edge = [[0, 1, 2, 3, 4, 5, 6, 7, 8, 9, 10, 11],
                   [12, 13, 5, 14, 15, 16, 1, 9, 17, 18, 6, 19]],
      face2edge = [[3, 2, 1, 0], [8, 9, 10, 11], [4, 11, 7, 3], [1, 6, 9, 5],
                   [0, 5, 8, 4], [2, 7, 10, 6], [14, 5, 13, 12], [17, 18, 6, 19],
                   [15, 19, 9, 14], [13, 1, 18, 16], [12, 16, 17, 15]]\<rparr>"

text \<open>The unit cube with one more node that no cell uses, and the tables of its mesh.\<close>

definition spare_node :: "point list" where
  "spare_node =
     [(0, 0, 0), (1, 0, 0), (1, 1, 0), (0, 1, 0),
      (0, 0, 1), (1, 0, 1), (1, 1, 1), (0, 1, 1), (2, 0, 0)]"

definition spare_ds :: mesh_ds where
  "spare_ds = one_hex_ds\<lparr>NN := 9\<rparr>"

subsection \<open>Which cells claim a face key\<close>

definition claimed_by :: "nat list \<Rightarrow> table \<Rightarrow> nat list list" where
  "claimed_by k cells = filter (\<lambda>c. k \<in> set (map face_key (cell_faces c))) cells"

text \<open>How often the key \<open>k\<close> has been claimed in a list of registered faces.\<close>

fun claim_count :: "nat list \<Rightarrow> face_entry list \<Rightarrow> nat" where
  "claim_count k [] = 0"
| "claim_count k (e # es) =
     (if face_key (fe_nodes e) = k then (case fe_cell1 e of None \<Rightarrow> 1 | Some c1 \<Rightarrow> 2)
      else claim_count k es)"

definition claim_key :: "face_claim \<Rightarrow> nat list" where
  "claim_key cl = face_key (snd (snd cl))"

subsection \<open>Shapes of arrays and \<^verbatim>\<open>np.einsum\<close>\<close>

text \<open>
  For the geometry methods an array is modelled by its shape. A subscript of
  \<^verbatim>\<open>np.einsum\<close> is a list of letters, with or without a leading ellipsis. An operand
  without ellipsis must have as many dimensions as its subscript has letters, one with
  ellipsis at least as many; a letter must have one size (or size 1) wherever it
  stands; the dimensions under the ellipses are broadcast, and an output subscript
  without ellipsis cannot take them. Every violation is a \<open>ValueError\<close>.
\<close>

type_synonym shape = "nat list"

type_synonym subscript = "bool \<times> string"

definition rank_ok :: "subscript \<Rightarrow> shape \<Rightarrow> bool" where
  "rank_ok sub shp =
     (if fst sub then length (snd sub) \<le> length shp else length (snd sub) = length shp)"

definition letter_dims :: "subscript \<Rightarrow> shape \<Rightarrow> (char \<times> nat) list" where
  "letter_dims sub shp = zip (snd sub) (drop (length shp - length (snd sub)) shp)"

definition ellipsis_dims :: "subscript \<Rightarrow> shape \<Rightarrow> shape" where
  "ellipsis_dims sub shp = (if fst sub then take (length shp - length (snd sub)) shp else [])"

fun broadcast_rev :: "shape \<Rightarrow> shape \<Rightarrow> shape option" where
  "broadcast_rev [] ys = Some ys"
| "broadcast_rev (x # xs) [] = Some (x # xs)"
| "broadcast_rev (x # xs) (y # ys) =
     (if x = y \<or> y = 1 then map_option (Cons x) (broadcast_rev xs ys)
      else if x = 1 then map_option (Cons y) (broadcast_rev xs ys)
      else None)"

definition broadcast :: "shape \<Rightarrow> shape \<Rightarrow> shape option" where
  "broadcast a b = map_option rev (broadcast_rev (rev a) (rev b))"

fun broadcast_all :: "shape list \<Rightarrow> shape option" where
  "broadcast_all [] = Some []"
| "broadcast_all (a # as) =
     (case broadcast_all as of None \<Rightarrow> None | Some b \<Rightarrow> broadcast a b)"

definition letter_size :: "(char \<times> nat) list \<Rightarrow> char \<Rightarrow> nat" where
  "letter_size binds c = fold max (map snd (filter (\<lambda>b. fst b = c) binds)) 0"

definition letters_clash :: "(char \<times> nat) \<Rightarrow> (char \<times> nat) \<Rightarrow> bool" where
  "letters_clash b b' \<longleftrightarrow> fst b = fst b' \<and> snd b \<noteq> 1 \<and> snd b' \<noteq> 1 \<and> snd b \<noteq> snd b'"

definition einsum :: "subscript list \<Rightarrow> subscript \<Rightarrow> shape list \<Rightarrow> error + shape" where
  "einsum subs out ops =
     (if length subs \<noteq> length ops \<or> \<not> list_all2 rank_ok subs ops then Inl ValueError
      else
        (let binds = concat (map2 letter_dims subs ops) in
         if list_ex (\<lambda>b. list_ex (letters_clash b) binds) binds
            \<or> list_ex (\<lambda>c. c \<notin> fst ` set binds) (snd out)
         then Inl ValueError
         else
           (case broadcast_all (map2 ellipsis_dims subs ops) of
              None \<Rightarrow> Inl ValueError
            | Some ell \<Rightarrow>
                if \<not> fst out \<and> ell \<noteq> [] then Inl ValueError
                else Inr (ell @ map (letter_size binds) (snd out)))))"

text \<open>\<^verbatim>\<open>a.reshape(-1, k)\<close> and the assignment \<^verbatim>\<open>gphi[..., d] = a\<close>, on shapes.\<close>

definition reshape_rows :: "shape \<Rightarrow> nat \<Rightarrow> error + shape" where
  "reshape_rows shp k =
     (if k = 0 \<or> prod_list shp mod k \<noteq> 0 then Inl ValueError
      else Inr [prod_list shp div k, k])"

definition assign_ok :: "shape \<Rightarrow> shape \<Rightarrow> bool" where
  "assign_ok target src = (broadcast target src = Some target)"

subsection \<open>Gradients of shape functions, Jacobi matrix, volume and area\<close>

text \<open>
  What the methods below call and the source files do not contain: the one-dimensional
  \<^verbatim>\<open>_shape_function\<close> and \<^verbatim>\<open>_grad_shape_function\<close> of the base class,
  \<^verbatim>\<open>self.entity\<close>, and the quadrature classes behind \<^verbatim>\<open>self.integrator\<close>. Each is a
  parameter that returns the shape of its result or raises. \<^verbatim>\<open>entity_shape 0\<close> is the
  node array, \<^verbatim>\<open>integrator_result q d\<close> the pair \<^verbatim>\<open>(bcs, ws)\<close> of the rule of order \<open>q\<close>
  on entities of dimension \<open>d\<close>.
\<close>

record collaborators =
  shape_function_1d :: "shape \<Rightarrow> nat \<Rightarrow> error + shape"
  grad_shape_function_1d :: "shape \<Rightarrow> nat \<Rightarrow> error + shape"
  entity_shape :: "nat \<Rightarrow> error + shape"
  integrator_result :: "nat \<Rightarrow> nat \<Rightarrow> error + (shape list \<times> shape)"

text \<open>
  The three (or two) assignments \<^verbatim>\<open>gphi[..., d] = np.einsum(...).reshape(-1, ldof)\<close> of
  \<^verbatim>\<open>grad_shape_function\<close>: \<open>subs\<close> and \<open>out\<close> are the subscripts, \<open>opss\<close> the operand
  lists of the successive calls.
\<close>

fun gphi_assignments ::
  "subscript list \<Rightarrow> subscript \<Rightarrow> shape list list \<Rightarrow> shape \<Rightarrow> error + unit" where
  "gphi_assignments subs out [] gphi = Inr ()"
| "gphi_assignments subs out (ops # opss) gphi =
     (case einsum subs out ops of
        Inl err \<Rightarrow> Inl err
      | Inr a \<Rightarrow>
          (case reshape_rows a (gphi ! 1) of
             Inl err \<Rightarrow> Inl err
           | Inr a' \<Rightarrow>
               if assign_ok (butlast gphi) a' then gphi_assignments subs out opss gphi
               else Inl ValueError))"

text \<open>
  \<^verbatim>\<open>grad_shape_function(self, bc, p, variables)\<close>; \<open>bc\<close> is the tuple of the shapes of its
  arrays. After the first \<^verbatim>\<open>einsum\<close> the name \<^verbatim>\<open>gphi\<close> is bound again, to the zero array
  of shape \<open>(n, ldof, TD)\<close>, and that array is the operand of the later calls. In the
  branch \<^verbatim>\<open>variables == 'x'\<close> the argument \<^verbatim>\<open>index=index\<close> reads a name that is bound
  nowhere.
\<close>

definition grad_shape_function ::
  "collaborators \<Rightarrow> shape list \<Rightarrow> nat \<Rightarrow> string \<Rightarrow> error + shape" where
  "grad_shape_function C bc p variables =
     (if bc = [] then Inl IndexError
      else
        (case shape_function_1d C (bc ! 0) p of
           Inl err \<Rightarrow> Inl err
         | Inr phi \<Rightarrow>
        (case grad_shape_function_1d C (bc ! 0) p of
           Inl err \<Rightarrow> Inl err
         | Inr R \<Rightarrow>
        (case einsum [(True, ''ij''), (False, ''j'')] (True, ''i'') [R, [2]] of
           Inl err \<Rightarrow> Inl err
         | Inr gphi1 \<Rightarrow>
             if phi = [] then Inl IndexError
             else
               (let TD = length bc;
                    n = hd phi ^ TD;
                    ldof = last phi ^ TD;
                    gphi = [n, ldof, TD]
                in
                  if TD = 3 then
                    (case gphi_assignments
                            [(False, ''im''), (False, ''jn''), (False, ''ko'')] (False, ''ijkmno'')
                            [[gphi, phi, phi], [phi, gphi, phi], [phi, phi, gphi]] gphi of
                       Inl err \<Rightarrow> Inl err
                     | Inr u \<Rightarrow> if variables = ''x'' then Inl NameError else Inr gphi)
                  else if TD = 2 then
                    (case gphi_assignments
                            [(False, ''im''), (False, ''jn'')] (False, ''ijmn'')
                            [[gphi, phi], [phi, gphi]] gphi of
                       Inl err \<Rightarrow> Inl err
                     | Inr u \<Rightarrow> if variables = ''x'' then Inl NameError else Inr gphi)
                  else Inr gphi)))))"

text \<open>
  \<^verbatim>\<open>jacobi_matrix(self, bc, index)\<close>: the node array, the entity array of dimension
  \<open>TD\<close>, the gradients with \<^verbatim>\<open>p=1, variables='u'\<close>, the eight columns
  \<^verbatim>\<open>[0, 4, 5, 7, 1, 5, 2, 6]\<close> of the entity array and the \<^verbatim>\<open>einsum\<close>.
\<close>

definition jacobi_matrix :: "collaborators \<Rightarrow> shape list \<Rightarrow> error + shape" where
  "jacobi_matrix C bc =
     (case entity_shape C 0 of
        Inl err \<Rightarrow> Inl err
      | Inr nd \<Rightarrow>
     (case entity_shape C (length bc) of
        Inl err \<Rightarrow> Inl err
      | Inr ent \<Rightarrow>
     (case grad_shape_function C bc 1 ''u'' of
        Inl err \<Rightarrow> Inl err
      | Inr gphi \<Rightarrow>
          if length ent \<noteq> 2 \<or> ent ! 1 \<le> 7 \<or> nd = [] then Inl IndexError
          else einsum [(False, ''cim''), (True, ''in'')] (True, ''cmn'')
                 [[ent ! 0, 8] @ tl nd, gphi])))"

text \<open>
  The first definitions of \<^verbatim>\<open>cell_volume\<close> and \<^verbatim>\<open>face_area\<close> in the class body, which
  integrate over the quadrature rule. \<^verbatim>\<open>np.linalg.det\<close> needs square matrices in the
  last two dimensions (its \<^verbatim>\<open>LinAlgError\<close> is a \<open>ValueError\<close>), \<^verbatim>\<open>np.cross\<close> vectors of
  length 2 or 3; the cross product of vectors of length 2 is a scalar, so the sum over
  the last axis then needs one more dimension.
\<close>

definition cell_volume_quadrature :: "collaborators \<Rightarrow> error + shape" where
  "cell_volume_quadrature C =
     (case integrator_result C 2 3 of
        Inl err \<Rightarrow> Inl err
      | Inr (bcs, ws) \<Rightarrow>
     (case jacobi_matrix C bcs of
        Inl err \<Rightarrow> Inl err
      | Inr J \<Rightarrow>
          if length J < 2 \<or> last J \<noteq> last (butlast J) then Inl ValueError
          else einsum [(True, []), (True, ''c'')] (False, ''c'') [ws, butlast (butlast J)]))"

definition face_area_quadrature :: "collaborators \<Rightarrow> error + shape" where
  "face_area_quadrature C =
     (case integrator_result C 2 2 of
        Inl err \<Rightarrow> Inl err
      | Inr (bcs, ws) \<Rightarrow>
     (case jacobi_matrix C bcs of
        Inl err \<Rightarrow> Inl err
      | Inr J \<Rightarrow>
          if J = [] \<or> last J < 2 then Inl IndexError
          else if length J < 2 \<or> (last (butlast J) \<noteq> 2 \<and> last (butlast J) \<noteq> 3)
          then Inl ValueError
          else if last (butlast J) = 2 \<and> length J < 3 then Inl ValueError
          else einsum [(False, ''q''), (False, ''qi'')] (False, ''i'')
                 [ws, if last (butlast J) = 3 then butlast (butlast J)
                      else butlast (butlast (butlast J))]))"

subsection \<open>The class body and its later definitions\<close>

text \<open>
  The body of \<^verbatim>\<open>class HexahedronMesh\<close> binds \<^verbatim>\<open>cell_volume\<close> and \<^verbatim>\<open>face_area\<close> twice: first
  to the quadrature methods, later to methods whose body is \<^verbatim>\<open>pass\<close>. The bindings are
  listed in the order of the class body; a later \<^verbatim>\<open>def\<close> replaces an earlier one of the
  same name, and a method whose body is \<^verbatim>\<open>pass\<close> returns \<^verbatim>\<open>None\<close>.
\<close>

datatype method_body = Cell_volume_quadrature | Face_area_quadrature | Pass_body

datatype pyvalue = PyNone | PyArray shape

definition class_body :: "(string \<times> method_body) list" where
  "class_body =
     [(''cell_volume'', Cell_volume_quadrature),
      (''face_area'', Face_area_quadrature),
      (''cell_volume'', Pass_body),
      (''face_area'', Pass_body),
      (''jacobi_at_corner'', Pass_body),
      (''cell_quality'', Pass_body)]"

definition class_attribute :: "string \<Rightarrow> method_body option" where
  "class_attribute name = map_of (rev class_body) name"

fun run_body :: "collaborators \<Rightarrow> method_body \<Rightarrow> error + pyvalue" where
  "run_body C Pass_body = Inr PyNone"
| "run_body C Cell_volume_quadrature =
     (case cell_volume_quadrature C of Inl err \<Rightarrow> Inl err | Inr a \<Rightarrow> Inr (PyArray a))"
| "run_body C Face_area_quadrature =
     (case face_area_quadrature C of Inl err \<Rightarrow> Inl err | Inr a \<Rightarrow> Inr (PyArray a))"

definition call_method :: "collaborators \<Rightarrow> string \<Rightarrow> error + pyvalue" where
  "call_method C name =
     (case class_attribute name of
        None \<Rightarrow> Inl NameError
      | Some b \<Rightarrow> run_body C b)"

text \<open>\<^verbatim>\<open>mesh.cell_volume()\<close> and \<^verbatim>\<open>mesh.face_area()\<close> as a caller reaches them.\<close>

definition cell_volume :: "collaborators \<Rightarrow> error + pyvalue" where
  "cell_volume C = call_method C ''cell_volume''"

definition face_area :: "collaborators \<Rightarrow> error + pyvalue" where
  "face_area C = call_method C ''face_area''"

subsection \<open>Sample inputs\<close>

text \<open>Three cells that all claim the face with the nodes 4, 5, 6, 7.\<close>

definition three_on_a_face :: table where
  "three_on_a_face =
     [[0, 1, 2, 3, 4, 5, 6, 7], [4, 5, 6, 7, 8, 9, 10, 11], [4, 5, 6, 7, 12, 13, 14, 15]]"

text \<open>Collaborators that return arrays: \<open>(NQ, p + 1)\<close> shape functions, \<open>(NQ, p + 1, 2)\<close>
  gradients, one hexahedron with its nodes and faces, and a tensor rule whose \<^verbatim>\<open>bcs\<close>
  is a tuple of \<open>d\<close> arrays.\<close>

definition sample_collaborators :: collaborators where
  "sample_collaborators =
     \<lparr>shape_function_1d = (\<lambda>b p. Inr [hd b, p + 1]),
      grad_shape_function_1d = (\<lambda>b p. Inr [hd b, p + 1, 2]),
      entity_shape = (\<lambda>d. Inr (if d = 0 then [8, 3] else if d = 3 then [1, 8] else [6, 4])),
      integrator_result = (\<lambda>q d. Inr (replicate d [q, 2], [q ^ d]))\<rparr>"

subsection \<open>The shape of a table\<close>

text \<open>A table of \<open>n\<close> rows with \<open>k\<close> entries each.\<close>

definition shaped :: "nat \<Rightarrow> nat \<Rightarrow> 'a list list \<Rightarrow> bool" where
  "shaped n k tbl \<longleftrightarrow> length tbl = n \<and> list_all (\<lambda>row. length row = k) tbl"

subsection \<open>Ranges of indices\<close>

text \<open>Every entry of a table is below \<open>B\<close>; the nodes of the edges are node indices of a
  mesh with at least one node; the total number of points for an order \<open>p \<ge> 1\<close>, as
  \<^verbatim>\<open>number_of_global_ipoints\<close> computes it, with the bases of the face and cell tiers.\<close>

definition entries_below :: "nat \<Rightarrow> table \<Rightarrow> bool" where
  "entries_below B tbl \<longleftrightarrow> (\<forall>row \<in> set tbl. \<forall>x \<in> set row. x < B)"

definition nodes_in_range :: "mesh_ds \<Rightarrow> bool" where
  "nodes_in_range m \<longleftrightarrow>
     0 < NN m \<and> (\<forall>e < NE m. edge m ! e ! 0 < NN m \<and> edge m ! e ! 1 < NN m)"

definition faceBase :: "mesh_ds \<Rightarrow> nat \<Rightarrow> nat" where
  "faceBase m p = NN m + NE m * (p - 1)"

definition cellBase :: "mesh_ds \<Rightarrow> nat \<Rightarrow> nat" where
  "cellBase m p = faceBase m p + NF m * (p - 1)^2"

definition totalPointCount :: "mesh_ds \<Rightarrow> nat \<Rightarrow> nat" where
  "totalPointCount m p = cellBase m p + NC m * (p - 1)^3"

subsection \<open>Tables that describe one mesh\<close>

text \<open>
  The tables of a mesh agree with each other when, for every cell \<open>c\<close>: the cell has eight
  nodes; its edge \<open>k\<close> joins the two nodes \<open>localEdge[k]\<close> of the cell; and its face \<open>i\<close>
  has four different nodes, the nodes \<open>localFace[i]\<close> of the cell in some order, has four
  edges that join the local end nodes of their slots, and these are the edges
  \<open>localFace2edge[i]\<close> of the cell in some order.
\<close>

definition edge_of_cell_ok :: "mesh_ds \<Rightarrow> nat \<Rightarrow> nat \<Rightarrow> bool" where
  "edge_of_cell_ok m c k \<longleftrightarrow>
     set (edge m ! (cell2edge m ! c ! k)) =
       {cell m ! c ! (localEdge ! k ! 0), cell m ! c ! (localEdge ! k ! 1)}"

definition face_of_cell_ok :: "mesh_ds \<Rightarrow> nat \<Rightarrow> nat \<Rightarrow> bool" where
  "face_of_cell_ok m c i \<longleftrightarrow>
     length (face m ! (cell2face m ! c ! i)) = 4 \<and>
     distinct (face m ! (cell2face m ! c ! i)) \<and>
     face_edges_join m (cell2face m ! c ! i) \<and>
     set (face m ! (cell2face m ! c ! i)) = set (map (\<lambda>v. cell m ! c ! v) (localFace ! i)) \<and>
     length (face2edge m ! (cell2face m ! c ! i)) = 4 \<and>
     set (face2edge m ! (cell2face m ! c ! i)) =
       set (map (\<lambda>k. cell2edge m ! c ! k) (localFace2edge ! i))"

definition cell_tables_agree :: "mesh_ds \<Rightarrow> nat \<Rightarrow> bool" where
  "cell_tables_agree m c \<longleftrightarrow>
     length (cell m ! c) = 8 \<and>
     list_all (edge_of_cell_ok m c) [0..<12] \<and>
     list_all (face_of_cell_ok m c) [0..<6]"

definition tables_agree :: "mesh_ds \<Rightarrow> bool" where
  "tables_agree m \<longleftrightarrow> list_all (cell_tables_agree m) [0..<NC m]"

section \<open>Properties\<close>

subsection \<open>The concrete meshes are what the constructor builds\<close>

lemma build_one_hex: "build_ds 8 from_one_hexahedron_cell = Inr one_hex_ds"
  by code_simp

lemma build_twisted: "build_ds 12 twisted_cell = Inr twisted_ds"
  by code_simp

lemma from_one_hexahedron_built:
  "from_one_hexahedron = Inr \<lparr>node = from_one_hexahedron_node, ds = one_hex_ds\<rparr>"
  by code_simp

lemma twisted_built:
  "HexahedronMesh twisted_node twisted_cell = Inr \<lparr>node = twisted_node, ds = twisted_ds\<rparr>"
  by code_simp

subsection \<open>The number of points and the order \<open>p = 0\<close>\<close>

text \<open>
  C7, as stated: for every mesh, a request with order \<open>p = 0\<close> is rejected with an error
  instead of returning a count. On the mesh with one hexahedron the count is returned:
  \<^verbatim>\<open>number_of_global_ipoints(0)\<close> is \<open>8 - 12 + 6 - 1 = 1\<close>.
\<close>

theorem number_of_global_ipoints_order_zero_returns:
  "number_of_global_ipoints one_hex_ds 0 = Inr 1"
  by code_simp

text \<open>
  C7, amended: \<^verbatim>\<open>number_of_global_ipoints\<close> does not validate the order. For every mesh
  and every integer \<open>p\<close> it returns a count, and for \<open>p = 0\<close> the count is
  \<open>NN - NE + NF - NC\<close>.
\<close>

theorem number_of_global_ipoints_never_rejects:
  "(\<exists>n. number_of_global_ipoints m p = Inr n) \<and>
   number_of_global_ipoints m 0 = Inr (int (NN m) - int (NE m) + int (NF m) - int (NC m))"
  by (simp add: number_of_global_ipoints_def)

subsection \<open>The mesh with one hexahedron\<close>

text \<open>
  C10: \<^verbatim>\<open>from_one_hexahedron\<close> builds a mesh (the eight node indices of its cell are
  distinct) whose node table repeats coordinates: node 3 has the coordinates \<open>(0,0,0)\<close> of
  node 0 and node 7 the coordinates \<open>(0,0,1)\<close> of node 4. The corners \<open>(0,1,0)\<close> and
  \<open>(0,1,1)\<close> of the unit cube are missing, and the local face \<open>(0, 4, 7, 3)\<close> of the
  cell collapses to the two points \<open>(0,0,0)\<close> and \<open>(0,0,1)\<close>: the cell has no thickness
  from vertex 0 to vertex 3 and from vertex 4 to vertex 7.
\<close>

theorem from_one_hexahedron_degenerate:
  "from_one_hexahedron = Inr \<lparr>node = from_one_hexahedron_node, ds = one_hex_ds\<rparr> \<and>
   from_one_hexahedron_cell = [[0, 1, 2, 3, 4, 5, 6, 7]] \<and>
   distinct (from_one_hexahedron_cell ! 0) \<and>
   from_one_hexahedron_node ! 0 = (0, 0, 0) \<and> from_one_hexahedron_node ! 3 = (0, 0, 0) \<and>
   from_one_hexahedron_node ! 4 = (0, 0, 1) \<and> from_one_hexahedron_node ! 7 = (0, 0, 1) \<and>
   (0, 1, 0) \<notin> set from_one_hexahedron_node \<and> (0, 1, 1) \<notin> set from_one_hexahedron_node \<and>
   cell_faces (from_one_hexahedron_cell ! 0) ! 2 = [0, 4, 7, 3] \<and>
   set (map (\<lambda>v. from_one_hexahedron_node ! v) (cell_faces (from_one_hexahedron_cell ! 0) ! 2))
     = {(0, 0, 0), (0, 0, 1)}"
  by code_simp

subsection \<open>Two cells on a shared face\<close>

text \<open>
  C1, evaluated where it fails. In the mesh of two cubes the cells share the face 3 (the
  nodes 1, 2, 6, 5). Its corner \<open>(1, 0, 1)\<close>, node 5, is the local point 5 of cell 0 and
  the local point 2 of cell 1. For \<open>p = 1\<close> cell 0 numbers it 5 and cell 1 numbers it 2:
  the two cells disagree on the global index of one physical point of their shared face.
  The index 2 that cell 1 gives it is the index that cell 0 gives to another corner of the
  face, \<open>(1, 1, 0)\<close>, its local point 6.
\<close>

theorem shared_face_point_two_indices:
  "HexahedronMesh twisted_node twisted_cell = Inr \<lparr>node = twisted_node, ds = twisted_ds\<rparr> \<and>
   cell2face twisted_ds ! 0 ! 3 = 3 \<and> cell2face twisted_ds ! 1 ! 5 = 3 \<and>
   face twisted_ds ! 3 = [1, 2, 6, 5] \<and> twisted_node ! 5 = (1, 0, 1) \<and>
   cell_ipoint_coords twisted_node (cell twisted_ds ! 0) 1 ! 5 = (1, 0, 1) \<and>
   cell_ipoint_coords twisted_node (cell twisted_ds ! 1) 1 ! 2 = (1, 0, 1) \<and>
   cell_ipoint_coords twisted_node (cell twisted_ds ! 0) 1 ! 6 = (1, 1, 0) \<and>
   (case cell_to_ipoint twisted_ds 1 of
      Inl err \<Rightarrow> False
    | Inr tbl \<Rightarrow> tbl ! 0 ! 5 = 5 \<and> tbl ! 1 ! 2 = 2 \<and> tbl ! 0 ! 6 = 2)"
  by code_simp

subsection \<open>The order \<open>p = 1\<close>\<close>

text \<open>
  C3, evaluated where it fails. For \<open>p = 1\<close> the mesh of two cubes has 12 points, its
  nodes. The row of cell 0 is the cell's node row in the fixed local order, the row of
  cell 1 is not: at the four corners of the shared face it holds 2, 1, 6, 5 where the
  cell's own nodes are 5, 6, 1, 2.
\<close>

theorem order_one_is_not_cell_to_node:
  "number_of_global_ipoints twisted_ds 1 = Inr 12 \<and>
   cell_to_ipoint twisted_ds 1 = Inr [[0, 4, 3, 7, 1, 5, 2, 6], [8, 10, 2, 1, 9, 11, 6, 5]] \<and>
   cell_to_node_reordered twisted_ds = [[0, 4, 3, 7, 1, 5, 2, 6], [8, 10, 5, 6, 9, 11, 1, 2]]"
  by code_simp

subsection \<open>The two cell routines\<close>

text \<open>
  C8, as stated: \<^verbatim>\<open>cell_to_ipoint(p)\<close> and \<^verbatim>\<open>cell_to_ipoint0(p)\<close> return identical tables
  for every mesh and every \<open>p \<ge> 1\<close>. On the mesh with one hexahedron and \<open>p = 1\<close> they
  return different rows.
\<close>

theorem cell_to_ipoint0_differs:
  "cell_to_ipoint one_hex_ds 1 = Inr [[0, 4, 3, 7, 1, 5, 2, 6]] \<and>
   cell_to_ipoint0 one_hex_ds 1 = Inr [[0, 4, 1, 5, 3, 7, 2, 6]]"
  by code_simp

subsection \<open>Construction fails as a whole\<close>

lemma register_face_error: "register_face cl es = Inl e \<Longrightarrow> e = TopologyError"
proof (induction es)
  case Nil
  then show ?case by (cases cl) simp
next
  case (Cons a es)
  then show ?case
    by (cases cl) (auto split: if_splits option.splits sum.splits)
qed

lemma claim_count_le2: "claim_count k es \<le> 2"
  by (induction es) (auto split: option.splits)

lemma register_face_count:
  "register_face cl es = Inr es' \<Longrightarrow>
   claim_count k es' = claim_count k es + (if k = claim_key cl then 1 else 0)"
proof (induction es arbitrary: es')
  case Nil
  then show ?case by (cases cl) (auto simp: claim_key_def)
next
  case (Cons a es)
  obtain c i ns where cl: "cl = (c, i, ns)" by (cases cl)
  show ?case
  proof (cases "face_key (fe_nodes a) = face_key ns")
    case True
    with Cons.prems cl show ?thesis
      by (auto simp: claim_key_def split: option.splits)
  next
    case False
    with Cons.prems cl obtain es1 where r: "register_face cl es = Inr es1" and e: "es' = a # es1"
      by (auto split: sum.splits)
    from Cons.IH[OF r] False cl e show ?thesis
      by (auto simp: claim_key_def)
  qed
qed

lemma register_faces_overclaimed:
  "2 < claim_count k es + count_list (map claim_key cls) k \<Longrightarrow>
   register_faces cls es = Inl TopologyError"
proof (induction cls arbitrary: es)
  case Nil
  then show ?case using claim_count_le2[of k es] by simp
next
  case (Cons cl cls)
  show ?case
  proof (cases "register_face cl es")
    case (Inl e)
    then show ?thesis using register_face_error[OF Inl] by simp
  next
    case (Inr es1)
    have "claim_count k es1 + count_list (map claim_key cls) k
          = claim_count k es + count_list (map claim_key (cl # cls)) k"
      using register_face_count[OF Inr, of k] by auto
    with Cons.prems have "2 < claim_count k es1 + count_list (map claim_key cls) k" by simp
    from Cons.IH[OF this] Inr show ?thesis by simp
  qed
qed

lemma claim_keys_of_cell: "map claim_key (cell_face_claims c cl) = map face_key (cell_faces cl)"
proof -
  have len: "length (cell_faces cl) = 6" by (simp add: cell_faces_def localFace_def)
  have "map claim_key (cell_face_claims c cl) = map (\<lambda>i. face_key (cell_faces cl ! i)) [0..<6]"
    by (simp add: cell_face_claims_def claim_key_def)
  also have "\<dots> = map face_key (map (\<lambda>i. cell_faces cl ! i) [0..<length (cell_faces cl)])"
    by (simp add: len)
  also have "\<dots> = map face_key (cell_faces cl)" by (simp only: map_nth)
  finally show ?thesis .
qed

lemma count_list_ge1: "k \<in> set xs \<Longrightarrow> 1 \<le> count_list xs k"
  by (induction xs) auto

lemma claims_count_ge:
  "length (claimed_by k cells)
   \<le> count_list (map claim_key (concat (map (\<lambda>(c, cl). cell_face_claims c cl) (enumerate n cells)))) k"
proof (induction cells arbitrary: n)
  case Nil
  then show ?case by (simp add: claimed_by_def)
next
  case (Cons cl cells)
  have "length (claimed_by k (cl # cells))
        = (if k \<in> set (map face_key (cell_faces cl)) then 1 else 0) + length (claimed_by k cells)"
    by (simp add: claimed_by_def)
  also have "\<dots> \<le> count_list (map face_key (cell_faces cl)) k
      + count_list (map claim_key (concat (map (\<lambda>(c, cl). cell_face_claims c cl) (enumerate (Suc n) cells)))) k"
    using Cons.IH[of "Suc n"] count_list_ge1[of k "map face_key (cell_faces cl)"]
    by (auto simp del: set_map)
  finally show ?case
    by (simp add: claim_keys_of_cell)
qed

text \<open>
  C6: a cell with a repeated node index makes the construction raise \<open>ValidationError\<close>;
  when every cell is valid and some face key is claimed by more than two cells it raises
  \<open>TopologyError\<close>; and a mesh is returned only when neither holds, so a failed
  construction returns no mesh, partial or not.
\<close>

theorem construction_fails_atomically:
  "((\<exists>c \<in> set cells. \<not> distinct c) \<longrightarrow> HexahedronMesh nd cells = Inl ValidationError) \<and>
   (list_all valid_cell cells \<and> (\<exists>k. 2 < length (claimed_by k cells))
      \<longrightarrow> HexahedronMesh nd cells = Inl TopologyError) \<and>
   (\<forall>M. HexahedronMesh nd cells = Inr M \<longrightarrow>
      list_all valid_cell cells \<and> (\<forall>k. length (claimed_by k cells) \<le> 2) \<and>
      node M = nd \<and> cell (ds M) = cells)"
proof (intro conjI impI allI)
  assume "\<exists>c \<in> set cells. \<not> distinct c"
  then have "\<not> list_all valid_cell cells"
    by (auto simp: list_all_iff valid_cell_def)
  then show "HexahedronMesh nd cells = Inl ValidationError"
    by (simp add: HexahedronMesh_def build_ds_def)
next
  assume a: "list_all valid_cell cells \<and> (\<exists>k. 2 < length (claimed_by k cells))"
  then obtain k where k: "2 < length (claimed_by k cells)" by blast
  have "2 < claim_count k [] + count_list (map claim_key (all_face_claims cells)) k"
    using k claims_count_ge[of k cells 0] by (simp add: all_face_claims_def)
  then have "register_faces (all_face_claims cells) [] = Inl TopologyError"
    by (rule register_faces_overclaimed)
  with a show "HexahedronMesh nd cells = Inl TopologyError"
    by (simp add: HexahedronMesh_def build_ds_def)
next
  fix M assume M: "HexahedronMesh nd cells = Inr M"
  then show v: "list_all valid_cell cells"
    by (auto simp: HexahedronMesh_def build_ds_def split: if_splits)
  show "length (claimed_by k cells) \<le> 2" for k
  proof (rule ccontr)
    assume "\<not> length (claimed_by k cells) \<le> 2"
    then have "2 < claim_count k [] + count_list (map claim_key (all_face_claims cells)) k"
      using claims_count_ge[of k cells 0] by (simp add: all_face_claims_def)
    then have "register_faces (all_face_claims cells) [] = Inl TopologyError"
      by (rule register_faces_overclaimed)
    with M v show False by (simp add: HexahedronMesh_def build_ds_def)
  qed
  from M show "node M = nd"
    by (auto simp: HexahedronMesh_def split: sum.splits)
  from M show "cell (ds M) = cells"
    by (auto simp: HexahedronMesh_def build_ds_def Let_def split: sum.splits if_splits)
qed

theorem construction_fails_atomically_witness:
  "HexahedronMesh from_one_hexahedron_node [[0, 0, 2, 3, 4, 5, 6, 7]] = Inl ValidationError \<and>
   HexahedronMesh [] three_on_a_face = Inl TopologyError \<and>
   list_all valid_cell from_one_hexahedron_cell \<and>
   length (claimed_by [4, 5, 6, 7] from_one_hexahedron_cell) = 1"
proof -
  have a: "\<exists>c \<in> set [[0, 0, 2, 3, 4, 5, 6, 7::nat]]. \<not> distinct c" by simp
  have b: "list_all valid_cell three_on_a_face" by code_simp
  have "2 < length (claimed_by [4, 5, 6, 7] three_on_a_face)" by code_simp
  then have c: "\<exists>k. 2 < length (claimed_by k three_on_a_face)" by blast
  have d: "list_all valid_cell from_one_hexahedron_cell" by code_simp
  have e: "length (claimed_by [4, 5, 6, 7] from_one_hexahedron_cell) = 1" by code_simp
  note t1 = construction_fails_atomically[of "[[0, 0, 2, 3, 4, 5, 6, 7]]" from_one_hexahedron_node]
  note t2 = construction_fails_atomically[of three_on_a_face "[]"]
  note r1 = t1[THEN conjunct1, THEN mp, OF a]
  note r2 = t2[THEN conjunct2, THEN conjunct1, THEN mp, OF conjI[OF b c]]
  from r1 r2 d e show ?thesis by (intro conjI)
qed


subsection \<open>The gradient of the shape functions raises\<close>

lemma einsum_rank3_first:
  "einsum ((False, [a, b]) # subs) out ([n, l, t] # ops) = Inl ValueError"
  by (simp add: einsum_def rank_ok_def)

lemma gphi_assignments_rank3:
  "gphi_assignments ((False, [a, b]) # subs) out (([n, l, t] # ops) # opss) g = Inl ValueError"
  by (simp add: einsum_rank3_first)

lemma grad_shape_function_ValueError:
  assumes "length bc = 2 \<or> length bc = 3"
    and "shape_function_1d C (bc ! 0) p = Inr phi" and "phi \<noteq> []"
    and "grad_shape_function_1d C (bc ! 0) p = Inr R"
    and "einsum [(True, ''ij''), (False, ''j'')] (True, ''i'') [R, [2]] = Inr g"
  shows "grad_shape_function C bc p v = Inl ValueError"
proof -
  from assms(1) have ne: "bc \<noteq> []" by auto
  from assms(1) show ?thesis
  proof
    assume "length bc = 2"
    then show ?thesis
      unfolding grad_shape_function_def
      by (simp add: ne assms(2-5) Let_def gphi_assignments_rank3 del: gphi_assignments.simps)
  next
    assume "length bc = 3"
    then show ?thesis
      unfolding grad_shape_function_def
      by (simp add: ne assms(2-5) Let_def gphi_assignments_rank3 del: gphi_assignments.simps)
  qed
qed


lemma grad_shape_function_error:
  assumes "length bc = 2 \<or> length bc = 3"
  shows "\<exists>e. grad_shape_function C bc p v = Inl e"
proof -
  from assms have ne: "bc \<noteq> []" by auto
  show ?thesis
  proof (cases "shape_function_1d C (bc ! 0) p")
    case (Inl e)
    then show ?thesis by (simp add: grad_shape_function_def ne)
  next
    case phi: (Inr phi)
    show ?thesis
    proof (cases "grad_shape_function_1d C (bc ! 0) p")
      case (Inl e)
      then show ?thesis by (simp add: grad_shape_function_def ne phi)
    next
      case R: (Inr R)
      show ?thesis
      proof (cases "einsum [(True, ''ij''), (False, ''j'')] (True, ''i'') [R, [2]]")
        case (Inl e)
        then show ?thesis by (simp add: grad_shape_function_def ne phi R)
      next
        case g: (Inr g)
        show ?thesis
        proof (cases "phi = []")
          case True
          then show ?thesis by (simp add: grad_shape_function_def ne phi R g)
        next
          case False
          from grad_shape_function_ValueError[OF assms phi False R g]
          show ?thesis by blast
        qed
      qed
    qed
  qed
qed

lemma jacobi_matrix_error:
  assumes "length bc = 2 \<or> length bc = 3"
  shows "\<exists>e. jacobi_matrix C bc = Inl e"
proof -
  from grad_shape_function_error[OF assms, of C "Suc 0" "''u''"]
  obtain e where e: "grad_shape_function C bc (Suc 0) ''u'' = Inl e" by blast
  show ?thesis
  proof (cases "entity_shape C 0")
    case (Inl a)
    then show ?thesis by (simp add: jacobi_matrix_def)
  next
    case nd: (Inr nd)
    show ?thesis
    proof (cases "entity_shape C (length bc)")
      case (Inl a)
      then show ?thesis by (simp add: jacobi_matrix_def nd)
    next
      case (Inr ent)
      then show ?thesis by (simp add: jacobi_matrix_def nd e)
    qed
  qed
qed

text \<open>
  C9: for a tuple \<open>bc\<close> of two or three arrays \<^verbatim>\<open>grad_shape_function\<close> raises, whatever
  the collaborators return; when they return arrays the exception is the \<open>ValueError\<close> of
  the \<^verbatim>\<open>einsum\<close> that receives the zero array of three dimensions under a subscript of
  two letters (the branch \<^verbatim>\<open>variables == 'x'\<close> with its unbound name is never reached).
  Hence \<^verbatim>\<open>jacobi_matrix\<close> raises too, and so do the quadrature definitions of
  \<^verbatim>\<open>cell_volume\<close> and \<^verbatim>\<open>face_area\<close> for every rule whose \<^verbatim>\<open>bcs\<close> is a tuple of three,
  respectively two, arrays.
\<close>

theorem grad_shape_function_raises:
  "(length bc = 2 \<or> length bc = 3 \<longrightarrow>
      (\<exists>e. grad_shape_function C bc p variables = Inl e) \<and>
      (shape_function_1d C (bc ! 0) p = Inr phi \<and> phi \<noteq> [] \<and>
       grad_shape_function_1d C (bc ! 0) p = Inr R \<and>
       einsum [(True, ''ij''), (False, ''j'')] (True, ''i'') [R, [2]] = Inr g
         \<longrightarrow> grad_shape_function C bc p variables = Inl ValueError) \<and>
      (\<exists>e. jacobi_matrix C bc = Inl e)) \<and>
   ((case integrator_result C 2 3 of Inl err \<Rightarrow> True | Inr (bcs, ws) \<Rightarrow> length bcs = 3)
      \<longrightarrow> (\<exists>e. cell_volume_quadrature C = Inl e)) \<and>
   ((case integrator_result C 2 2 of Inl err \<Rightarrow> True | Inr (bcs, ws) \<Rightarrow> length bcs = 2)
      \<longrightarrow> (\<exists>e. face_area_quadrature C = Inl e))"
proof (intro conjI impI)
  assume "length bc = 2 \<or> length bc = 3"
  then show "\<exists>e. grad_shape_function C bc p variables = Inl e"
    by (rule grad_shape_function_error)
next
  assume l: "length bc = 2 \<or> length bc = 3"
    and h: "shape_function_1d C (bc ! 0) p = Inr phi \<and> phi \<noteq> [] \<and>
       grad_shape_function_1d C (bc ! 0) p = Inr R \<and>
       einsum [(True, ''ij''), (False, ''j'')] (True, ''i'') [R, [2]] = Inr g"
  from h have h1: "shape_function_1d C (bc ! 0) p = Inr phi" and h2: "phi \<noteq> []"
    and h3: "grad_shape_function_1d C (bc ! 0) p = Inr R"
    and h4: "einsum [(True, ''ij''), (False, ''j'')] (True, ''i'') [R, [2]] = Inr g"
    by simp_all
  show "grad_shape_function C bc p variables = Inl ValueError"
    by (rule grad_shape_function_ValueError[OF l h1 h2 h3 h4])
next
  assume "length bc = 2 \<or> length bc = 3"
  then show "\<exists>e. jacobi_matrix C bc = Inl e"
    by (rule jacobi_matrix_error)
next
  assume a: "case integrator_result C 2 3 of Inl err \<Rightarrow> True | Inr (bcs, ws) \<Rightarrow> length bcs = 3"
  show "\<exists>e. cell_volume_quadrature C = Inl e"
  proof (cases "integrator_result C 2 3")
    case (Inl e)
    then show ?thesis by (simp add: cell_volume_quadrature_def)
  next
    case (Inr r)
    obtain bcs ws where r: "r = (bcs, ws)" by (cases r)
    with a Inr have "length bcs = 3" by simp
    then obtain e where "jacobi_matrix C bcs = Inl e"
      using jacobi_matrix_error[of bcs C] by blast
    with Inr r show ?thesis by (simp add: cell_volume_quadrature_def)
  qed
next
  assume a: "case integrator_result C 2 2 of Inl err \<Rightarrow> True | Inr (bcs, ws) \<Rightarrow> length bcs = 2"
  show "\<exists>e. face_area_quadrature C = Inl e"
  proof (cases "integrator_result C 2 2")
    case (Inl e)
    then show ?thesis by (simp add: face_area_quadrature_def)
  next
    case (Inr r)
    obtain bcs ws where r: "r = (bcs, ws)" by (cases r)
    with a Inr have "length bcs = 2" by simp
    then obtain e where "jacobi_matrix C bcs = Inl e"
      using jacobi_matrix_error[of bcs C] by blast
    with Inr r show ?thesis by (simp add: face_area_quadrature_def)
  qed
qed

lemma sample_einsum:
  "einsum [(True, ''ij''), (False, ''j'')] (True, ''i'') [[2, 2, 2], [2]] = Inr [2, 2]"
  by code_simp

theorem grad_shape_function_raises_witness:
  "grad_shape_function sample_collaborators [[2, 2], [2, 2], [2, 2]] 1 ''u'' = Inl ValueError \<and>
   (\<exists>e. jacobi_matrix sample_collaborators [[2, 2], [2, 2], [2, 2]] = Inl e) \<and>
   (\<exists>e. cell_volume_quadrature sample_collaborators = Inl e) \<and>
   (\<exists>e. face_area_quadrature sample_collaborators = Inl e)"
proof -
  let ?bc = "[[2, 2], [2, 2], [2, 2::nat]]"
  have l3: "length ?bc = 2 \<or> length ?bc = 3"
    by simp
  have s3: "shape_function_1d sample_collaborators (?bc ! 0) 1 = Inr [2, 2] \<and>
            [2, 2::nat] \<noteq> [] \<and>
            grad_shape_function_1d sample_collaborators (?bc ! 0) 1 = Inr [2, 2, 2] \<and>
            einsum [(True, ''ij''), (False, ''j'')] (True, ''i'') [[2, 2, 2], [2]] = Inr [2, 2]"
    by (simp add: sample_collaborators_def sample_einsum)
  have i3: "case integrator_result sample_collaborators 2 3 of
              Inl err \<Rightarrow> True | Inr (bcs, ws) \<Rightarrow> length bcs = 3"
    by (simp add: sample_collaborators_def)
  have i2: "case integrator_result sample_collaborators 2 2 of
              Inl err \<Rightarrow> True | Inr (bcs, ws) \<Rightarrow> length bcs = 2"
    by (simp add: sample_collaborators_def)
  note t = grad_shape_function_raises[of ?bc sample_collaborators 1 "''u''" "[2, 2]" "[2, 2, 2]" "[2, 2]"]
  note t1 = t[THEN conjunct1, THEN mp, OF l3]
  note a = t1[THEN conjunct2, THEN conjunct1, THEN mp, OF s3]
  note b = t1[THEN conjunct2, THEN conjunct2]
  note c = t[THEN conjunct2, THEN conjunct1, THEN mp, OF i3]
  note d = t[THEN conjunct2, THEN conjunct2, THEN mp, OF i2]
  from a b c d show ?thesis by (intro conjI)
qed

subsection \<open>The volume of a cell\<close>

lemma class_attribute_cell_volume: "class_attribute ''cell_volume'' = Some Pass_body"
  by (simp add: class_attribute_def class_body_def)

lemma class_attribute_face_area: "class_attribute ''face_area'' = Some Pass_body"
  by (simp add: class_attribute_def class_body_def)

text \<open>
  C5, evaluated where it fails. The class body binds \<^verbatim>\<open>cell_volume\<close> first to the
  quadrature method and later to a method whose body is \<^verbatim>\<open>pass\<close>; the class attribute
  is the later one. On every mesh, the one of \<^verbatim>\<open>from_one_hexahedron\<close> included,
  \<^verbatim>\<open>cell_volume()\<close> and \<^verbatim>\<open>face_area()\<close> return \<^verbatim>\<open>None\<close>, not an array.
\<close>

theorem cell_volume_returns_None:
  "map_of class_body ''cell_volume'' = Some Cell_volume_quadrature \<and>
   class_attribute ''cell_volume'' = Some Pass_body \<and>
   class_attribute ''face_area'' = Some Pass_body \<and>
   cell_volume C = Inr PyNone \<and> face_area C = Inr PyNone"
proof -
  have a: "map_of class_body ''cell_volume'' = Some Cell_volume_quadrature"
    by (simp add: class_body_def)
  have d: "cell_volume C = Inr PyNone"
    unfolding cell_volume_def call_method_def
    by (simp only: class_attribute_cell_volume option.case run_body.simps)
  have e: "face_area C = Inr PyNone"
    unfolding face_area_def call_method_def
    by (simp only: class_attribute_face_area option.case run_body.simps)
  from a class_attribute_cell_volume class_attribute_face_area d e show ?thesis
    by (intro conjI)
qed


subsection \<open>Lemmas on the array operations\<close>

lemma length_np_repeat: "length (np_repeat xs n) = length xs * n"
  by (induction xs) (auto simp: np_repeat_def)

lemma nth_np_repeat: "q < length xs * n \<Longrightarrow> np_repeat xs n ! q = xs ! (q div n)"
proof (induction xs arbitrary: q)
  case Nil
  then show ?case by simp
next
  case (Cons x xs)
  have n0: "0 < n" using Cons.prems by (cases n) auto
  have unf: "np_repeat (x # xs) n = replicate n x @ np_repeat xs n"
    by (simp add: np_repeat_def)
  show ?case
  proof (cases "q < n")
    case True
    then show ?thesis by (simp add: unf nth_append)
  next
    case False
    then have "q - n < length xs * n" using Cons.prems by simp
    from Cons.IH[OF this] have "np_repeat xs n ! (q - n) = xs ! ((q - n) div n)" .
    moreover have "q div n = Suc ((q - n) div n)"
      using False n0 by (simp add: le_div_geq)
    ultimately show ?thesis using False by (simp add: unf nth_append)
  qed
qed

lemma length_np_tile: "length (np_tile xs n) = n * length xs"
  by (induction n) (auto simp: np_tile_def)

lemma nth_np_tile: "q < n * length xs \<Longrightarrow> np_tile xs n ! q = xs ! (q mod length xs)"
proof (induction n arbitrary: q)
  case 0
  then show ?case by simp
next
  case (Suc n)
  have unf: "np_tile xs (Suc n) = xs @ np_tile xs n"
    by (simp add: np_tile_def)
  show ?case
  proof (cases "q < length xs")
    case True
    then show ?thesis by (simp add: unf nth_append)
  next
    case False
    then have "q - length xs < n * length xs" using Suc.prems by simp
    from Suc.IH[OF this] False show ?thesis
      by (simp add: unf nth_append le_mod_geq)
  qed
qed

lemma length_scatter: "length (scatter row qs vs) = length row"
  by (induction row qs vs rule: scatter.induct) auto

lemma set_scatter: "set (scatter row qs vs) \<subseteq> set row \<union> set vs"
proof (induction row qs vs rule: scatter.induct)
  case (1 row q qs v vs)
  have "set (row[q := v]) \<subseteq> insert v (set row)" by (rule set_update_subset_insert)
  with 1 show ?case by auto
qed auto

lemma nth_scatter_other: "q \<notin> set qs \<Longrightarrow> scatter row qs vs ! q = row ! q"
  by (induction row qs vs rule: scatter.induct) auto

lemma nth_scatter_written:
  "distinct qs \<Longrightarrow> length qs \<le> length vs \<Longrightarrow> t < length qs \<Longrightarrow> qs ! t < length row \<Longrightarrow>
   scatter row qs vs ! (qs ! t) = vs ! t"
proof (induction row qs vs arbitrary: t rule: scatter.induct)
  case (1 row q qs v vs)
  show ?case
  proof (cases t)
    case 0
    with 1 show ?thesis by (simp add: nth_scatter_other)
  next
    case (Suc t')
    with 1 show ?thesis by simp
  qed
qed auto

lemma nth_enumerate_map:
  "c < length tbl \<Longrightarrow> map (\<lambda>(c, row). f c row) (enumerate 0 tbl) ! c = f c (tbl ! c)"
  by (simp add: nth_enumerate_eq)


lemma nth_repeat_upt: "q < N * K \<Longrightarrow> np_repeat [0..<N] K ! q = q div K"
proof -
  assume q: "q < N * K"
  then have "q div K < N" by (simp add: less_mult_imp_div_less)
  with q show ?thesis by (simp add: nth_np_repeat)
qed

lemma nth_tile_upt: "q < K * N \<Longrightarrow> np_tile [0..<N] K ! q = q mod N"
proof -
  assume q: "q < K * N"
  then have "0 < N" by (cases N) auto
  with q show ?thesis by (simp add: nth_np_tile)
qed

lemma nth_tile_repeat_upt:
  assumes q: "q < N * N * N"
  shows "np_tile (np_repeat [0..<N] N) N ! q = q div N mod N"
proof -
  have N: "0 < N" using q by (cases N) auto
  have l: "length (np_repeat [0..<N] N) = N * N" by (simp add: length_np_repeat)
  have m: "q mod (N * N) < N * N" using N by simp
  have "np_tile (np_repeat [0..<N] N) N ! q = np_repeat [0..<N] N ! (q mod (N * N))"
    using q by (subst nth_np_tile) (simp_all add: l mult.assoc)
  also have "\<dots> = (q mod (N * N)) div N"
    using m by (rule nth_repeat_upt)
  also have "\<dots> = q div N mod N"
    using N by (simp add: mod_mult2_eq)
  finally show ?thesis .
qed

lemma length_multiIndex2:
  "length (multiIndex2_0 p) = (p + 1) * (p + 1)" "length (multiIndex2_1 p) = (p + 1) * (p + 1)"
  unfolding multiIndex2_0_def multiIndex2_1_def length_np_repeat length_np_tile
  by simp_all

lemma nth_multiIndex2_0: "q < (p + 1) * (p + 1) \<Longrightarrow> multiIndex2_0 p ! q = q div (p + 1)"
  unfolding multiIndex2_0_def by (rule nth_repeat_upt)

lemma nth_multiIndex2_1: "q < (p + 1) * (p + 1) \<Longrightarrow> multiIndex2_1 p ! q = q mod (p + 1)"
  unfolding multiIndex2_1_def by (rule nth_tile_upt)

lemma length_multiIndex3:
  "length (multiIndex3_0 p) = (p + 1) * (p + 1) * (p + 1)"
  "length (multiIndex3_1 p) = (p + 1) * (p + 1) * (p + 1)"
  "length (multiIndex3_2 p) = (p + 1) * (p + 1) * (p + 1)"
  unfolding multiIndex3_0_def multiIndex3_1_def multiIndex3_2_def
    length_np_repeat length_np_tile power2_eq_square
  by (simp_all add: mult.assoc)

lemma nth_multiIndex3_0:
  assumes "q < (p + 1) * (p + 1) * (p + 1)"
  shows "multiIndex3_0 p ! q = q div ((p + 1) * (p + 1))"
proof -
  from assms have "q < (p + 1) * ((p + 1) * (p + 1))" by (simp only: mult.assoc)
  then show ?thesis
    unfolding multiIndex3_0_def power2_eq_square by (rule nth_repeat_upt)
qed

lemma nth_multiIndex3_1:
  "q < (p + 1) * (p + 1) * (p + 1) \<Longrightarrow> multiIndex3_1 p ! q = q div (p + 1) mod (p + 1)"
  unfolding multiIndex3_1_def by (rule nth_tile_repeat_upt)

lemma nth_multiIndex3_2:
  "q < (p + 1) * (p + 1) * (p + 1) \<Longrightarrow> multiIndex3_2 p ! q = q mod (p + 1)"
  unfolding multiIndex3_2_def power2_eq_square by (rule nth_tile_upt)


lemma card_digits:
  fixes A B :: "nat set"
  assumes A: "A \<subseteq> {..<M}" and B: "B \<subseteq> {..<N}"
  shows "card {q. q < M * N \<and> q div N \<in> A \<and> q mod N \<in> B} = card A * card B"
proof -
  let ?f = "\<lambda>(a, b). a * N + b"
  have inj: "inj_on ?f (A \<times> B)"
  proof (rule inj_onI)
    fix x y assume x: "x \<in> A \<times> B" and y: "y \<in> A \<times> B" and e: "?f x = ?f y"
    obtain a b where xx: "x = (a, b)" by (cases x)
    obtain a' b' where yy: "y = (a', b')" by (cases y)
    from x xx B have b: "b < N" by auto
    from y yy B have b': "b' < N" by auto
    from e xx yy have eq: "a * N + b = a' * N + b'" by simp
    from eq have "(a * N + b) div N = (a' * N + b') div N" by simp
    with b b' have "a = a'" by simp
    moreover from eq have "(a * N + b) mod N = (a' * N + b') mod N" by simp
    with b b' have "b = b'" by simp
    ultimately show "x = y" using xx yy by simp
  qed
  have "{q. q < M * N \<and> q div N \<in> A \<and> q mod N \<in> B} = ?f ` (A \<times> B)"
  proof (intro set_eqI iffI)
    fix q assume "q \<in> {q. q < M * N \<and> q div N \<in> A \<and> q mod N \<in> B}"
    then have "(q div N, q mod N) \<in> A \<times> B" by simp
    moreover have "?f (q div N, q mod N) = q" by simp
    ultimately show "q \<in> ?f ` (A \<times> B)" by (metis (no_types, lifting) image_eqI)
  next
    fix q assume "q \<in> ?f ` (A \<times> B)"
    then obtain a b where a: "a \<in> A" and b: "b \<in> B" and q: "q = a * N + b" by auto
    from b B have bN: "b < N" by auto
    from a A have aM: "a < M" by auto
    have "a * N + b < M * N"
    proof -
      have "a * N + b < a * N + N" using bN by simp
      also have "\<dots> = Suc a * N" by simp
      also have "\<dots> \<le> M * N" using aM by (intro mult_le_mono1) simp
      finally show ?thesis .
    qed
    with a b bN q show "q \<in> {q. q < M * N \<and> q div N \<in> A \<and> q mod N \<in> B}" by simp
  qed
  then have "card {q. q < M * N \<and> q div N \<in> A \<and> q mod N \<in> B} = card (?f ` (A \<times> B))"
    by simp
  also have "\<dots> = card (A \<times> B)" by (rule card_image[OF inj])
  also have "\<dots> = card A * card B" by (rule card_cartesian_product)
  finally show ?thesis .
qed

lemma length_filter_upt: "length (filter P [0..<M]) = card {q. q < M \<and> P q}"
proof -
  have "length (filter P [0..<M]) = card ({x. P x} \<inter> set [0..<M])"
    by (rule distinct_length_filter) simp
  also have "{x. P x} \<inter> set [0..<M] = {q. q < M \<and> P q}" by auto
  finally show ?thesis .
qed

lemma face_indof_filter:
  "face_indof p =
   filter (\<lambda>q. (0 < q div (p + 1) \<and> 0 < q mod (p + 1)) \<and> (q div (p + 1) < p \<and> q mod (p + 1) < p))
     [0..<(p + 1) * (p + 1)]"
  unfolding face_indof_def np_where_def
  by (rule filter_cong)
     (simp_all add: length_multiIndex2 nth_multiIndex2_0 nth_multiIndex2_1 del: upt_Suc)

lemma length_face_indof: "length (face_indof p) = (p - 1) * (p - 1)"
proof -
  let ?N = "p + 1"
  let ?A = "{1..<p}"
  have "length (face_indof p)
        = card {q. q < ?N * ?N \<and> (0 < q div ?N \<and> 0 < q mod ?N) \<and> (q div ?N < p \<and> q mod ?N < p)}"
    unfolding face_indof_filter by (rule length_filter_upt)
  also have "{q. q < ?N * ?N \<and> (0 < q div ?N \<and> 0 < q mod ?N) \<and> (q div ?N < p \<and> q mod ?N < p)}
        = {q. q < ?N * ?N \<and> q div ?N \<in> ?A \<and> q mod ?N \<in> ?A}"
    by auto
  also have "card \<dots> = card ?A * card ?A"
    by (rule card_digits) auto
  finally show ?thesis by simp
qed

lemma cell_indof_filter:
  "cell_indof p =
   filter (\<lambda>q. (0 < q div ((p + 1) * (p + 1)) \<and> 0 < q div (p + 1) mod (p + 1) \<and> 0 < q mod (p + 1)) \<and>
               (q div ((p + 1) * (p + 1)) < p \<and> q div (p + 1) mod (p + 1) < p \<and> q mod (p + 1) < p))
     [0..<(p + 1) * (p + 1) * (p + 1)]"
  unfolding cell_indof_def np_where_def
  by (rule filter_cong)
     (simp_all add: length_multiIndex3 nth_multiIndex3_0 nth_multiIndex3_1 nth_multiIndex3_2
        del: upt_Suc)

lemma length_cell_indof: "length (cell_indof p) = (p - 1) * (p - 1) * (p - 1)"
proof -
  let ?N = "p + 1"
  let ?A = "{1..<p}"
  let ?S = "{r. r < ?N * ?N \<and> r div ?N \<in> ?A \<and> r mod ?N \<in> ?A}"
  have S: "card ?S = card ?A * card ?A" by (rule card_digits) auto
  have "length (cell_indof p)
        = card {q. q < ?N * ?N * ?N \<and>
                   (0 < q div (?N * ?N) \<and> 0 < q div ?N mod ?N \<and> 0 < q mod ?N) \<and>
                   (q div (?N * ?N) < p \<and> q div ?N mod ?N < p \<and> q mod ?N < p)}"
    unfolding cell_indof_filter by (rule length_filter_upt)
  also have "{q. q < ?N * ?N * ?N \<and>
                   (0 < q div (?N * ?N) \<and> 0 < q div ?N mod ?N \<and> 0 < q mod ?N) \<and>
                   (q div (?N * ?N) < p \<and> q div ?N mod ?N < p \<and> q mod ?N < p)}
        = {q. q < (?N * ?N) * ?N \<and> q div ?N \<in> ?S \<and> q mod ?N \<in> ?A}"
  proof (intro set_eqI iffI)
    fix q assume "q \<in> {q. q < ?N * ?N * ?N \<and>
                   (0 < q div (?N * ?N) \<and> 0 < q div ?N mod ?N \<and> 0 < q mod ?N) \<and>
                   (q div (?N * ?N) < p \<and> q div ?N mod ?N < p \<and> q mod ?N < p)}"
    then have q: "q < ?N * ?N * ?N" and d: "0 < q div (?N * ?N)" "q div (?N * ?N) < p"
      and r: "0 < q div ?N mod ?N" "q div ?N mod ?N < p" "0 < q mod ?N" "q mod ?N < p"
      by auto
    have dd: "q div ?N div ?N = q div (?N * ?N)" by (simp only: div_mult2_eq)
    from q have "q div ?N < ?N * ?N" by (simp add: less_mult_imp_div_less)
    with d r dd q show "q \<in> {q. q < (?N * ?N) * ?N \<and> q div ?N \<in> ?S \<and> q mod ?N \<in> ?A}"
      by simp
  next
    fix q assume "q \<in> {q. q < (?N * ?N) * ?N \<and> q div ?N \<in> ?S \<and> q mod ?N \<in> ?A}"
    then have q: "q < ?N * ?N * ?N" and s: "q div ?N div ?N \<in> ?A" "q div ?N mod ?N \<in> ?A"
      and r: "q mod ?N \<in> ?A" by auto
    have dd: "q div ?N div ?N = q div (?N * ?N)" by (simp only: div_mult2_eq)
    from q s r dd show "q \<in> {q. q < ?N * ?N * ?N \<and>
                   (0 < q div (?N * ?N) \<and> 0 < q div ?N mod ?N \<and> 0 < q mod ?N) \<and>
                   (q div (?N * ?N) < p \<and> q div ?N mod ?N < p \<and> q mod ?N < p)}"
      by simp
  qed
  also have "card \<dots> = card ?S * card ?A"
    by (rule card_digits) auto
  finally have "length (cell_indof p) = card ?S * card ?A" .
  then have "length (cell_indof p) = card ?A * card ?A * card ?A"
    by (simp only: S)
  then show ?thesis by simp
qed


lemma shaped_replicate: "shaped n k (replicate n (replicate k x))"
  by (simp add: shaped_def list_all_iff)

lemma shaped_nth: "shaped n k tbl \<Longrightarrow> c < n \<Longrightarrow> length (tbl ! c) = k"
  by (simp add: shaped_def list_all_length)

lemma shaped_length: "shaped n k tbl \<Longrightarrow> length tbl = n"
  by (simp add: shaped_def)

lemma shaped_map_enumerate:
  assumes "shaped n k tbl" and "\<And>c row. length (g c row) = length row"
  shows "shaped n k (map (\<lambda>(c, row). g c row) (enumerate 0 tbl))"
  using assms by (auto simp: shaped_def list_all_length nth_enumerate_eq)

lemma shaped_fold:
  assumes "\<And>i tbl. shaped n k tbl \<Longrightarrow> shaped n k (step i tbl)"
  shows "shaped n k tbl \<Longrightarrow> shaped n k (fold step is tbl)"
  by (induction "is" arbitrary: tbl) (auto intro: assms)

lemma shaped_cell_face_step:
  "shaped n k tbl \<Longrightarrow> shaped n k (cell_face_step m p f2ip i tbl)"
  unfolding cell_face_step_def
  by (rule shaped_map_enumerate) (simp_all add: cell_face_row_def length_scatter)

lemma shaped_cell_face_step0:
  "shaped n k tbl \<Longrightarrow> shaped n k (cell_face_step0 m p f2ip i tbl)"
  unfolding cell_face_step0_def
  by (rule shaped_map_enumerate) (simp_all add: cell_face_row0_def length_scatter)

lemma shaped_cell_interior_step:
  "shaped n k tbl \<Longrightarrow> shaped n k (cell_interior_step m p tbl)"
  unfolding cell_interior_step_def
  by (rule shaped_map_enumerate) (simp_all add: length_scatter)

lemma distinct_np_where: "distinct (np_where bs)"
  by (simp add: np_where_def)

lemma np_where_less: "q \<in> set (np_where bs) \<Longrightarrow> q < length bs"
  by (simp add: np_where_def)

lemma cell_indof_less: "q \<in> set (cell_indof p) \<Longrightarrow> q < (p + 1) * (p + 1) * (p + 1)"
  unfolding cell_indof_def
  by (drule np_where_less) (simp add: length_multiIndex3)

lemma nth_arange_row: "t < k \<Longrightarrow> arange_row lo k r ! t = lo + r * k + t"
  by (simp add: arange_row_def)

lemma length_arange_row: "length (arange_row lo k r) = k"
  by (simp add: arange_row_def)

lemma cell_interior_step_nth:
  assumes sh: "shaped n ((p + 1) * (p + 1) * (p + 1)) tbl" and c: "c < n"
    and t: "t < (p - 1) * (p - 1) * (p - 1)"
  shows "cell_interior_step m p tbl ! c ! (cell_indof p ! t)
         = NN m + NE m * (p - 1) + NF m * (p - 1)^2 + c * (p - 1)^3 + t"
proof -
  let ?k = "(p - 1)^3"
  let ?lo = "NN m + NE m * (p - 1) + NF m * (p - 1)^2"
  have k: "?k = (p - 1) * (p - 1) * (p - 1)" by (simp add: power3_eq_cube)
  from sh c have len: "length tbl = n" "length (tbl ! c) = (p + 1) * (p + 1) * (p + 1)"
    by (simp_all add: shaped_length shaped_nth)
  have row: "cell_interior_step m p tbl ! c
             = scatter (tbl ! c) (cell_indof p) (arange_row ?lo ?k c)"
    using c len by (simp add: cell_interior_step_def nth_enumerate_eq)
  have tl: "t < length (cell_indof p)" using t by (simp add: length_cell_indof)
  have "scatter (tbl ! c) (cell_indof p) (arange_row ?lo ?k c) ! (cell_indof p ! t)
        = arange_row ?lo ?k c ! t"
  proof (rule nth_scatter_written)
    show "distinct (cell_indof p)" unfolding cell_indof_def by (rule distinct_np_where)
    show "length (cell_indof p) \<le> length (arange_row ?lo ?k c)"
      by (simp add: length_cell_indof length_arange_row power3_eq_cube)
    show "t < length (cell_indof p)" by (rule tl)
    show "cell_indof p ! t < length (tbl ! c)"
      using cell_indof_less[of "cell_indof p ! t" p] tl len by simp
  qed
  also have "\<dots> = ?lo + c * ?k + t"
    using t by (intro nth_arange_row) (simp add: power3_eq_cube)
  finally show ?thesis by (simp only: row)
qed


subsection \<open>What the two cell routines share\<close>

lemma cell_to_ipoint_Inr:
  "cell_to_ipoint m p = Inr T \<Longrightarrow>
   \<exists>f2ip tbl. face_to_ipoint m p = Inr f2ip \<and> 0 < NC m \<and>
     shaped (NC m) ((p + 1) * (p + 1) * (p + 1)) tbl \<and> T = cell_interior_step m p tbl"
proof -
  assume a: "cell_to_ipoint m p = Inr T"
  then obtain f2ip where f: "face_to_ipoint m p = Inr f2ip"
    by (cases "face_to_ipoint m p") (simp_all add: cell_to_ipoint_def)
  let ?tbl = "fold (cell_face_step m p f2ip) [0..<6]
                (replicate (NC m) (replicate ((p + 1)^3) 0))"
  from a f have nc: "0 < NC m" and T: "T = cell_interior_step m p ?tbl"
    by (auto simp: cell_to_ipoint_def split: if_splits)
  have "shaped (NC m) ((p + 1)^3) ?tbl"
    by (intro shaped_fold shaped_cell_face_step shaped_replicate)
  then have "shaped (NC m) ((p + 1) * (p + 1) * (p + 1)) ?tbl"
    by (simp only: power3_eq_cube)
  with f nc T show ?thesis by blast
qed

lemma cell_to_ipoint0_Inr:
  "cell_to_ipoint0 m p = Inr T \<Longrightarrow>
   \<exists>f2ip tbl. face_to_ipoint m p = Inr f2ip \<and> 0 < NC m \<and>
     shaped (NC m) ((p + 1) * (p + 1) * (p + 1)) tbl \<and> T = cell_interior_step m p tbl"
proof -
  assume a: "cell_to_ipoint0 m p = Inr T"
  then obtain f2ip where f: "face_to_ipoint m p = Inr f2ip"
    by (cases "face_to_ipoint m p") (simp_all add: cell_to_ipoint0_def)
  let ?tbl = "fold (cell_face_step0 m p f2ip) [0..<6]
                (replicate (NC m) (replicate ((p + 1)^3) 0))"
  from a f have nc: "0 < NC m" and T: "T = cell_interior_step m p ?tbl"
    by (auto simp: cell_to_ipoint0_def split: if_splits)
  have "shaped (NC m) ((p + 1)^3) ?tbl"
    by (intro shaped_fold shaped_cell_face_step0 shaped_replicate)
  then have "shaped (NC m) ((p + 1) * (p + 1) * (p + 1)) ?tbl"
    by (simp only: power3_eq_cube)
  with f nc T show ?thesis by blast
qed

lemma cell_routines_same_error:
  "cell_to_ipoint m p = Inl e \<longleftrightarrow> cell_to_ipoint0 m p = Inl e"
  by (cases "face_to_ipoint m p") (simp_all add: cell_to_ipoint_def cell_to_ipoint0_def)

text \<open>
  C8, amended: the two routines are not duplicates. For every mesh and every \<open>p \<ge> 1\<close> they
  raise the same errors, return tables of the same shape \<open>NC \<times> (p + 1)^3\<close>, and agree on
  the interior points of every cell, where both hold the block that starts at
  \<open>NN + NE (p - 1) + NF (p - 1)^2 + c (p - 1)^3\<close>. On the points of the cell boundary
  they follow different local orders and differ in general.
\<close>

theorem cell_routines_agree_on_interior:
  "1 \<le> p \<Longrightarrow>
   (cell_to_ipoint m p = Inl e \<longleftrightarrow> cell_to_ipoint0 m p = Inl e) \<and>
   (cell_to_ipoint m p = Inr TA \<and> cell_to_ipoint0 m p = Inr TB \<longrightarrow>
      shaped (NC m) ((p + 1) * (p + 1) * (p + 1)) TA \<and>
      shaped (NC m) ((p + 1) * (p + 1) * (p + 1)) TB \<and>
      (\<forall>c < NC m. \<forall>t < (p - 1) * (p - 1) * (p - 1).
         TA ! c ! (cell_indof p ! t) = NN m + NE m * (p - 1) + NF m * (p - 1)^2 + c * (p - 1)^3 + t \<and>
         TB ! c ! (cell_indof p ! t) = TA ! c ! (cell_indof p ! t)))"
proof (intro conjI impI allI)
  show "cell_to_ipoint m p = Inl e \<longleftrightarrow> cell_to_ipoint0 m p = Inl e"
    by (rule cell_routines_same_error)
next
  assume a: "cell_to_ipoint m p = Inr TA \<and> cell_to_ipoint0 m p = Inr TB"
  from a obtain tbl where s: "shaped (NC m) ((p + 1) * (p + 1) * (p + 1)) tbl"
    and TA: "TA = cell_interior_step m p tbl"
    using cell_to_ipoint_Inr[of m p TA] by blast
  from a obtain tbl0 where s0: "shaped (NC m) ((p + 1) * (p + 1) * (p + 1)) tbl0"
    and TB: "TB = cell_interior_step m p tbl0"
    using cell_to_ipoint0_Inr[of m p TB] by blast
  show "shaped (NC m) ((p + 1) * (p + 1) * (p + 1)) TA"
    unfolding TA using s by (rule shaped_cell_interior_step)
  show "shaped (NC m) ((p + 1) * (p + 1) * (p + 1)) TB"
    unfolding TB using s0 by (rule shaped_cell_interior_step)
  fix c t assume c: "c < NC m" and t: "t < (p - 1) * (p - 1) * (p - 1)"
  show v: "TA ! c ! (cell_indof p ! t)
           = NN m + NE m * (p - 1) + NF m * (p - 1)^2 + c * (p - 1)^3 + t"
    unfolding TA using s c t by (rule cell_interior_step_nth)
  have "TB ! c ! (cell_indof p ! t)
           = NN m + NE m * (p - 1) + NF m * (p - 1)^2 + c * (p - 1)^3 + t"
    unfolding TB using s0 c t by (rule cell_interior_step_nth)
  with v show "TB ! c ! (cell_indof p ! t) = TA ! c ! (cell_indof p ! t)" by simp
qed


lemma one_hex_order_two:
  "cell_to_ipoint one_hex_ds 2 = Inr
     [[0, 12, 4, 11, 22, 19, 3, 15, 7, 8, 24, 16, 20, 26, 21, 10, 25, 18,
       1, 13, 5, 9, 23, 17, 2, 14, 6]]"
  by code_simp

lemma one_hex_order_two0:
  "cell_to_ipoint0 one_hex_ds 2 = Inr
     [[0, 12, 4, 8, 24, 16, 1, 13, 5, 12, 22, 15, 20, 26, 21, 9, 23, 17,
       3, 15, 7, 10, 25, 18, 2, 14, 6]]"
  by code_simp

theorem cell_routines_agree_on_interior_witness:
  "[[0, 12, 4, 11, 22, 19, 3, 15, 7, 8, 24, 16, 20, 26, 21, 10, 25, 18,
     1, 13, 5, 9, 23, 17, 2, 14, 6]] ! 0 ! (cell_indof 2 ! 0) = (26::nat) \<and>
   [[0, 12, 4, 8, 24, 16, 1, 13, 5, 12, 22, 15, 20, 26, 21, 9, 23, 17,
     3, 15, 7, 10, 25, 18, 2, 14, 6]] ! 0 ! (cell_indof 2 ! 0) = (26::nat) \<and>
   cell_indof 2 = [13]"
proof -
  let ?A = "[[0, 12, 4, 11, 22, 19, 3, 15, 7, 8, 24, 16, 20, 26, 21, 10, 25, 18,
              1, 13, 5, 9, 23, 17, 2, 14, 6::nat]]"
  let ?B = "[[0, 12, 4, 8, 24, 16, 1, 13, 5, 12, 22, 15, 20, 26, 21, 9, 23, 17,
               3, 15, 7, 10, 25, 18, 2, 14, 6::nat]]"
  have p: "1 \<le> (2::nat)" by simp
  note t = cell_routines_agree_on_interior[OF p, where m = one_hex_ds and TA = ?A and TB = ?B]
  note u = t[THEN conjunct2, THEN mp, OF conjI[OF one_hex_order_two one_hex_order_two0]]
  note v = u[THEN conjunct2, THEN conjunct2, THEN spec, of 0, THEN mp, THEN spec, of 0, THEN mp]
  have c: "0 < NC one_hex_ds" by code_simp
  have k: "(0::nat) < (2 - 1) * (2 - 1) * (2 - 1)" by simp
  have n: "NN one_hex_ds + NE one_hex_ds * (2 - 1) + NF one_hex_ds * (2 - 1)^2
           + 0 * (2 - 1)^3 + 0 = 26" by code_simp
  have i: "cell_indof 2 = [13]" by code_simp
  from v[OF c k] n i show ?thesis by simp
qed


lemma filter_upt_eq_map:
  fixes g :: "nat \<Rightarrow> nat"
  assumes mono: "\<And>a b. a < b \<Longrightarrow> b < n \<Longrightarrow> g a < g b"
    and range: "\<And>q. (q < M \<and> P q) \<longleftrightarrow> (\<exists>a<n. q = g a)"
  shows "filter P [0..<M] = map g [0..<n]"
proof (rule sorted_distinct_set_unique)
  show "sorted (filter P [0..<M])" by (simp add: sorted_wrt_filter)
  show "distinct (filter P [0..<M])" by simp
  have s: "sorted_wrt (<) (map g [0..<n])"
    unfolding sorted_wrt_iff_nth_less using mono by simp
  then show "sorted (map g [0..<n])" "distinct (map g [0..<n])"
    by (simp_all add: strict_sorted_iff)
  show "set (filter P [0..<M]) = set (map g [0..<n])"
    using range by auto
qed

lemma digit_bound: "a < M \<Longrightarrow> b < N \<Longrightarrow> a * N + b < M * (N::nat)"
proof -
  assume a: "a < M" and b: "b < N"
  have "a * N + b < a * N + N" using b by simp
  also have "\<dots> = Suc a * N" by simp
  also have "\<dots> \<le> M * N" using a by (intro mult_le_mono1) simp
  finally show ?thesis .
qed

lemma filter_mod_eq:
  assumes r: "r < N"
  shows "filter (\<lambda>q. q mod N = r) [0..<N * N] = map (\<lambda>t. t * N + r) [0..<N]"
proof (rule filter_upt_eq_map)
  fix q show "(q < N * N \<and> q mod N = r) \<longleftrightarrow> (\<exists>a<N. q = a * N + r)"
  proof
    assume a: "q < N * N \<and> q mod N = r"
    then have "q div N < N" by (simp add: less_mult_imp_div_less)
    moreover from a have "q = q div N * N + r" by (metis div_mult_mod_eq)
    ultimately show "\<exists>a<N. q = a * N + r" by blast
  next
    assume "\<exists>a<N. q = a * N + r"
    then obtain a where a: "a < N" and q: "q = a * N + r" by blast
    from digit_bound[OF a r] q have "q < N * N" by simp
    moreover have "q mod N = r" using q r by simp
    ultimately show "q < N * N \<and> q mod N = r" by simp
  qed
qed simp

lemma filter_div_eq:
  assumes c: "c < N"
  shows "filter (\<lambda>q. q div N = c) [0..<N * N] = map (\<lambda>t. c * N + t) [0..<N]"
proof (rule filter_upt_eq_map)
  fix q show "(q < N * N \<and> q div N = c) \<longleftrightarrow> (\<exists>a<N. q = c * N + a)"
  proof
    assume a: "q < N * N \<and> q div N = c"
    from c have "q mod N < N" by simp
    moreover from a have "q = c * N + q mod N" by (metis div_mult_mod_eq)
    ultimately show "\<exists>a<N. q = c * N + a" by blast
  next
    assume "\<exists>a<N. q = c * N + a"
    then obtain a where a: "a < N" and q: "q = c * N + a" by blast
    from digit_bound[OF c a] q have "q < N * N" by simp
    moreover have "q div N = c" using q a by simp
    ultimately show "q < N * N \<and> q div N = c" by simp
  qed
qed simp

lemma np_where_map: "np_where (map f xs) = filter (\<lambda>q. f (xs ! q)) [0..<length xs]"
  unfolding np_where_def by (rule filter_cong) simp_all

lemma np_where_multiIndex2_0:
  "np_where (map f (multiIndex2_0 p)) = filter (\<lambda>q. f (q div (p + 1))) [0..<(p + 1) * (p + 1)]"
  unfolding np_where_map length_multiIndex2
  by (rule filter_cong) (simp_all add: nth_multiIndex2_0 del: upt_Suc)

lemma np_where_multiIndex2_1:
  "np_where (map f (multiIndex2_1 p)) = filter (\<lambda>q. f (q mod (p + 1))) [0..<(p + 1) * (p + 1)]"
  unfolding np_where_map length_multiIndex2
  by (rule filter_cong) (simp_all add: nth_multiIndex2_1 del: upt_Suc)

lemma face_dofidx_rows:
  "face_dofidx p =
     [map (\<lambda>t. t * (p + 1) + 0) [0..<p + 1],
      map (\<lambda>t. p * (p + 1) + t) [0..<p + 1],
      map (\<lambda>t. t * (p + 1) + p) [0..<p + 1],
      map (\<lambda>t. 0 * (p + 1) + t) [0..<p + 1]]"
proof -
  have a: "0 < p + 1" "p < p + 1" by simp_all
  show ?thesis
    unfolding face_dofidx_def np_where_multiIndex2_0 np_where_multiIndex2_1
      filter_mod_eq[OF a(1)] filter_mod_eq[OF a(2)] filter_div_eq[OF a(1)] filter_div_eq[OF a(2)]
    by (rule refl)
qed

lemma length_face_dofidx: "i < 4 \<Longrightarrow> length (face_dofidx p ! i) = p + 1"
proof -
  assume "i < 4"
  then have "i = 0 \<or> i = 1 \<or> i = 2 \<or> i = 3" by auto
  then show ?thesis unfolding face_dofidx_rows by (elim disjE) simp_all
qed

lemma nth_face_dofidx:
  assumes "t \<le> p"
  shows "face_dofidx p ! 0 ! t = t * (p + 1)"
    and "face_dofidx p ! 1 ! t = p * (p + 1) + t"
    and "face_dofidx p ! 2 ! t = t * (p + 1) + p"
    and "face_dofidx p ! 3 ! t = t"
proof -
  have t: "t < length [0..<p + 1]" using assms by simp
  have n: "[0..<p + 1] ! t = t" using assms by (simp del: upt_Suc)
  show "face_dofidx p ! 0 ! t = t * (p + 1)"
    unfolding face_dofidx_rows nth_Cons_0 nth_map[OF t] n by simp
  show "face_dofidx p ! 1 ! t = p * (p + 1) + t"
    using assms by (simp add: face_dofidx_rows del: upt_Suc)
  show "face_dofidx p ! 2 ! t = t * (p + 1) + p"
    unfolding face_dofidx_rows numeral_2_eq_2 nth_Cons_Suc nth_Cons_0 nth_map[OF t] n by simp
  show "face_dofidx p ! 3 ! t = t"
    unfolding face_dofidx_rows numeral_3_eq_3 nth_Cons_Suc nth_Cons_0 nth_map[OF t] n by simp
qed

lemma face_dofidx_distinct: "i < 4 \<Longrightarrow> distinct (face_dofidx p ! i)"
proof -
  assume "i < 4"
  then have "i = 0 \<or> i = 1 \<or> i = 2 \<or> i = 3" by auto
  then show ?thesis
    by (elim disjE) (simp_all add: face_dofidx_def distinct_np_where)
qed

lemma face_dofidx_less: "i < 4 \<Longrightarrow> q \<in> set (face_dofidx p ! i) \<Longrightarrow> q < (p + 1) * (p + 1)"
proof -
  assume i: "i < 4" and q: "q \<in> set (face_dofidx p ! i)"
  from i have "i = 0 \<or> i = 1 \<or> i = 2 \<or> i = 3" by auto
  then show ?thesis using q
    by (elim disjE) (auto simp: face_dofidx_def length_multiIndex2 dest!: np_where_less)
qed


lemma face_dofidx_nth_less:
  assumes "i < 4" and "t \<le> p"
  shows "face_dofidx p ! i ! t < (p + 1) * (p + 1)"
proof -
  from assms have "t < length (face_dofidx p ! i)" by (simp add: length_face_dofidx)
  then have "face_dofidx p ! i ! t \<in> set (face_dofidx p ! i)" by (rule nth_mem)
  with assms(1) show ?thesis by (rule face_dofidx_less)
qed

lemma face_edge_row_written:
  assumes i: "i < 4" and t: "t \<le> p"
    and row: "length row = (p + 1) * (p + 1)"
    and seq: "length (e2ip ! (face2edge m ! f ! i)) = p + 1"
  shows "face_edge_row m p e2ip i f row ! (face_dofidx p ! i ! t) =
         (if face m ! f ! (face_localEdge ! i ! 0) = edge m ! (face2edge m ! f ! i) ! 0
          then e2ip ! (face2edge m ! f ! i) ! t
          else e2ip ! (face2edge m ! f ! i) ! (p - t))"
proof -
  let ?ge = "face2edge m ! f ! i"
  let ?qs = "face_dofidx p ! i"
  let ?row1 = "scatter row ?qs (e2ip ! ?ge)"
  have d: "distinct ?qs" using i by (rule face_dofidx_distinct)
  have l: "length ?qs = p + 1" using i by (rule length_face_dofidx)
  have tl: "t < length ?qs" using t l by simp
  have b: "?qs ! t < length row" using face_dofidx_nth_less[OF i t] row by simp
  have fwd: "?row1 ! (?qs ! t) = e2ip ! ?ge ! t"
    by (rule nth_scatter_written[OF d _ tl b]) (simp add: l seq)
  have b1: "?qs ! t < length ?row1" using b by (simp add: length_scatter)
  have "scatter ?row1 ?qs (rev (e2ip ! ?ge)) ! (?qs ! t) = rev (e2ip ! ?ge) ! t"
    by (rule nth_scatter_written[OF d _ tl b1]) (simp add: l seq)
  also have "\<dots> = e2ip ! ?ge ! (p - t)"
    using t seq by (simp add: rev_nth)
  finally have bwd: "scatter ?row1 ?qs (rev (e2ip ! ?ge)) ! (?qs ! t) = e2ip ! ?ge ! (p - t)" .
  show ?thesis
    unfolding face_edge_row_def Let_def using fwd bwd by simp
qed

lemma face_edge_row_other:
  "q \<notin> set (face_dofidx p ! i) \<Longrightarrow> face_edge_row m p e2ip i f row ! q = row ! q"
  by (simp add: face_edge_row_def Let_def nth_scatter_other)

lemma length_face_edge_row: "length (face_edge_row m p e2ip i f row) = length row"
  by (simp add: face_edge_row_def Let_def length_scatter)

lemma face_edge_step_nth:
  "f < length tbl \<Longrightarrow> face_edge_step m p e2ip i tbl ! f = face_edge_row m p e2ip i f (tbl ! f)"
  by (simp add: face_edge_step_def nth_enumerate_eq)

lemma shaped_face_edge_step:
  "shaped n k tbl \<Longrightarrow> shaped n k (face_edge_step m p e2ip i tbl)"
  unfolding face_edge_step_def
  by (rule shaped_map_enumerate) (simp_all add: length_face_edge_row)

lemma shaped_face_interior_step:
  "shaped n k tbl \<Longrightarrow> shaped n k (face_interior_step m p tbl)"
  unfolding face_interior_step_def
  by (rule shaped_map_enumerate) (simp_all add: length_scatter)

lemma orientation_test:
  fixes a b :: nat
  assumes "length e = 2" and "set e = {a, b}" and "a \<noteq> b"
  shows "a = e ! 0 \<longleftrightarrow> e = [a, b]"
proof -
  from assms(1) obtain x y where e: "e = [x, y]"
    by (cases e; cases "tl e") auto
  with assms(2,3) show ?thesis by (auto simp: doubleton_eq_iff)
qed


lemma face_dofidx_sets:
  "set (face_dofidx p ! 0) = {q. q < (p + 1) * (p + 1) \<and> q mod (p + 1) = 0}"
  "set (face_dofidx p ! 1) = {q. q < (p + 1) * (p + 1) \<and> q div (p + 1) = p}"
  "set (face_dofidx p ! 2) = {q. q < (p + 1) * (p + 1) \<and> q mod (p + 1) = p}"
  "set (face_dofidx p ! 3) = {q. q < (p + 1) * (p + 1) \<and> q div (p + 1) = 0}"
  unfolding face_dofidx_def
  by (auto simp: np_where_multiIndex2_0 np_where_multiIndex2_1 simp del: upt_Suc)

lemma face_indof_set:
  "set (face_indof p) =
   {q. q < (p + 1) * (p + 1) \<and> (0 < q div (p + 1) \<and> 0 < q mod (p + 1)) \<and>
       (q div (p + 1) < p \<and> q mod (p + 1) < p)}"
  unfolding face_indof_filter by (auto simp del: upt_Suc)

lemma digits:
  fixes N :: nat
  assumes "b < N"
  shows "(a * N + b) div N = a" "(a * N + b) mod N = b"
  using assms by simp_all

lemma face_dofidx_digits:
  assumes t: "t \<le> p"
  shows "face_dofidx p ! 0 ! t div (p + 1) = t" "face_dofidx p ! 0 ! t mod (p + 1) = 0"
    and "face_dofidx p ! 1 ! t div (p + 1) = p" "face_dofidx p ! 1 ! t mod (p + 1) = t"
    and "face_dofidx p ! 2 ! t div (p + 1) = t" "face_dofidx p ! 2 ! t mod (p + 1) = p"
    and "face_dofidx p ! 3 ! t div (p + 1) = 0" "face_dofidx p ! 3 ! t mod (p + 1) = t"
proof -
  have t1: "t < p + 1" and p1: "p < p + 1" and z: "0 < p + 1" using t by simp_all
  show "face_dofidx p ! 0 ! t div (p + 1) = t" "face_dofidx p ! 0 ! t mod (p + 1) = 0"
    unfolding nth_face_dofidx(1)[OF t] using digits[OF z, of t] by simp_all
  show "face_dofidx p ! 1 ! t div (p + 1) = p" "face_dofidx p ! 1 ! t mod (p + 1) = t"
    unfolding nth_face_dofidx(2)[OF t] by (rule digits[OF t1])+
  show "face_dofidx p ! 2 ! t div (p + 1) = t" "face_dofidx p ! 2 ! t mod (p + 1) = p"
    unfolding nth_face_dofidx(3)[OF t] by (rule digits[OF p1])+
  show "face_dofidx p ! 3 ! t div (p + 1) = 0" "face_dofidx p ! 3 ! t mod (p + 1) = t"
    unfolding nth_face_dofidx(4)[OF t] using t by simp_all
qed

lemma face_edge_point_not_interior:
  assumes i: "i < 4" and t: "t \<le> p"
  shows "face_dofidx p ! i ! t \<notin> set (face_indof p)"
proof -
  from i have "i = 0 \<or> i = 1 \<or> i = 2 \<or> i = 3" by auto
  then show ?thesis
    unfolding face_indof_set using face_dofidx_digits[OF t]
    by (elim disjE) simp_all
qed

lemma in_face_dofidx_iff:
  assumes "j < 4"
  shows "q \<in> set (face_dofidx p ! j) \<longleftrightarrow>
         q < (p + 1) * (p + 1) \<and>
         [q mod (p + 1) = 0, q div (p + 1) = p, q mod (p + 1) = p, q div (p + 1) = 0] ! j"
proof -
  from assms have "j = 0 \<or> j = 1 \<or> j = 2 \<or> j = 3" by auto
  then show ?thesis
    using face_dofidx_sets[of p] by (elim disjE) simp_all
qed

lemma face_edge_point_not_other:
  assumes i: "i < 4" and j: "j < 4" and ij: "i \<noteq> j" and t: "0 < t" "t < p"
  shows "face_dofidx p ! i ! t \<notin> set (face_dofidx p ! j)"
proof -
  from t have tp: "t \<le> p" by simp
  from i have ci: "i = 0 \<or> i = 1 \<or> i = 2 \<or> i = 3" by auto
  from j have cj: "j = 0 \<or> j = 1 \<or> j = 2 \<or> j = 3" by auto
  note d = face_dofidx_digits[OF tp]
  from ci cj ij show ?thesis
    unfolding in_face_dofidx_iff[OF j]
    using t d by (elim disjE) simp_all
qed

lemma length_edge_to_ipoint_row:
  assumes "1 \<le> p" and "e < NE m"
  shows "length (edge_to_ipoint m p ! e) = p + 1"
  using assms by (simp add: edge_to_ipoint_def NE_def nth_enumerate_eq length_arange_row)

lemma fold_face_edge_steps_keep:
  assumes "\<And>j. j \<in> set js \<Longrightarrow> q \<notin> set (face_dofidx p ! j)"
  shows "f < length tbl \<Longrightarrow> fold (face_edge_step m p e2ip) js tbl ! f ! q = tbl ! f ! q"
  using assms
proof (induction js arbitrary: tbl)
  case Nil
  then show ?case by simp
next
  case (Cons j js)
  have l: "f < length (face_edge_step m p e2ip j tbl)"
    using Cons.prems(1) by (simp add: face_edge_step_def)
  have "fold (face_edge_step m p e2ip) (j # js) tbl ! f ! q
        = face_edge_step m p e2ip j tbl ! f ! q"
    using Cons.IH[OF l] Cons.prems(2) by simp
  also have "\<dots> = tbl ! f ! q"
    using Cons.prems by (simp add: face_edge_step_nth face_edge_row_other)
  finally show ?case .
qed


subsection \<open>Edges of a face\<close>

lemma face_to_ipoint_Inr:
  assumes "face_to_ipoint m p = Inr F"
  shows "face_index_ok m" and "0 < NF m"
    and "F = face_interior_step m p
               (fold (face_edge_step m p (edge_to_ipoint m p)) [0..<4]
                  (replicate (NF m) (replicate ((p + 1)^2) 0)))"
  using assms by (auto simp: face_to_ipoint_def split: if_splits)

lemma face_interior_step_other:
  "f < length tbl \<Longrightarrow> q \<notin> set (face_indof p) \<Longrightarrow> face_interior_step m p tbl ! f ! q = tbl ! f ! q"
  by (simp add: face_interior_step_def nth_enumerate_eq nth_scatter_other)

lemma upt_split_at: "i < n \<Longrightarrow> [0..<n] = [0..<i] @ i # [Suc i..<n]"
proof -
  assume i: "i < n"
  then obtain k where n: "n = i + k" by (auto simp: less_iff_Suc_add)
  have "[0..<i + k] = [0..<i] @ [i..<i + k]" by (rule upt_add_eq_append) simp
  also have "[i..<i + k] = i # [Suc i..<i + k]" using i n by (intro upt_conv_Cons) simp
  finally show ?thesis using n by simp
qed

lemma face_to_ipoint_edge_point:
  assumes p: "1 \<le> p" and i: "i < 4" and t: "0 < t" "t < p"
    and F: "face_to_ipoint m p = Inr F" and f: "f < NF m"
  shows "F ! f ! (face_dofidx p ! i ! t) =
         (if face m ! f ! (face_localEdge ! i ! 0) = edge m ! (face2edge m ! f ! i) ! 0
          then edge_to_ipoint m p ! (face2edge m ! f ! i) ! t
          else edge_to_ipoint m p ! (face2edge m ! f ! i) ! (p - t))"
proof -
  let ?e2ip = "edge_to_ipoint m p"
  let ?step = "face_edge_step m p ?e2ip"
  let ?tbl0 = "replicate (NF m) (replicate ((p + 1)^2) (0::nat))"
  let ?pos = "face_dofidx p ! i ! t"
  let ?X = "fold ?step [0..<i] ?tbl0"
  let ?Y = "?step i ?X"
  let ?T4 = "fold ?step [0..<4] ?tbl0"
  from t have tp: "t \<le> p" by simp
  note Fs = face_to_ipoint_Inr[OF F]
  have sh0: "shaped (NF m) ((p + 1) * (p + 1)) ?tbl0"
    unfolding power2_eq_square by (rule shaped_replicate)
  have shX: "shaped (NF m) ((p + 1) * (p + 1)) ?X"
    using sh0 by (intro shaped_fold shaped_face_edge_step)
  have shY: "shaped (NF m) ((p + 1) * (p + 1)) ?Y"
    using shX by (rule shaped_face_edge_step)
  have sh4: "shaped (NF m) ((p + 1) * (p + 1)) ?T4"
    using sh0 by (intro shaped_fold shaped_face_edge_step)
  have T4: "?T4 = fold ?step [Suc i..<4] ?Y"
    by (subst upt_split_at[OF i]) simp
  have ge: "face2edge m ! f ! i < NE m"
    using Fs(1) f i by (simp add: face_index_ok_def)
  have "F ! f ! ?pos = ?T4 ! f ! ?pos"
    unfolding Fs(3)
    using f sh4 face_edge_point_not_interior[OF i tp]
    by (intro face_interior_step_other) (simp_all add: shaped_length)
  also have "\<dots> = ?Y ! f ! ?pos"
    unfolding T4
  proof (rule fold_face_edge_steps_keep)
    fix j assume "j \<in> set [Suc i..<4]"
    then have "j < 4" "i \<noteq> j" by auto
    then show "?pos \<notin> set (face_dofidx p ! j)"
      using face_edge_point_not_other[OF i _ _ t] by blast
  next
    show "f < length ?Y" using shY f by (simp add: shaped_length)
  qed
  also have "\<dots> = face_edge_row m p ?e2ip i f (?X ! f) ! ?pos"
    using shX f by (simp add: face_edge_step_nth shaped_length)
  also have "\<dots> = (if face m ! f ! (face_localEdge ! i ! 0) = edge m ! (face2edge m ! f ! i) ! 0
          then ?e2ip ! (face2edge m ! f ! i) ! t
          else ?e2ip ! (face2edge m ! f ! i) ! (p - t))"
    by (rule face_edge_row_written[OF i tp shaped_nth[OF shX f] length_edge_to_ipoint_row[OF p ge]])
  finally show ?thesis .
qed

lemma set_np_repeat: "x \<in> set (np_repeat xs n) \<Longrightarrow> x \<in> set xs"
  unfolding np_repeat_def by (induction xs) auto

lemma set_np_tile: "x \<in> set (np_tile xs n) \<Longrightarrow> x \<in> set xs"
  unfolding np_tile_def by (induction n) auto

lemma multiIndex3_1_le: "x \<in> set (multiIndex3_1 p) \<Longrightarrow> x \<le> p"
proof -
  assume "x \<in> set (multiIndex3_1 p)"
  then have "x \<in> set (np_repeat [0..<p + 1] (p + 1))"
    unfolding multiIndex3_1_def by (rule set_np_tile)
  then have "x \<in> set [0..<p + 1]" by (rule set_np_repeat)
  then show ?thesis by auto
qed

lemma multiIndex3_2_le: "x \<in> set (multiIndex3_2 p) \<Longrightarrow> x \<le> p"
proof -
  assume "x \<in> set (multiIndex3_2 p)"
  then have "x \<in> set [0..<p + 1]"
    unfolding multiIndex3_2_def by (rule set_np_tile)
  then show ?thesis by auto
qed

lemma multiIndex2d_entry:
  assumes "mi \<in> set (multiIndex2d p)" and "a < 4"
  shows "mi ! a \<le> p"
proof -
  let ?xs = "take ((p + 1)^2) (multiIndex3_1 p)"
  let ?ys = "take ((p + 1)^2) (multiIndex3_2 p)"
  from assms(1) have "mi \<in> (\<lambda>(j, k). [j, k, p - j, p - k]) ` set (zip ?xs ?ys)"
    unfolding multiIndex2d_def by (simp only: set_map)
  then obtain z where z: "z \<in> set (zip ?xs ?ys)"
    and mz: "mi = (\<lambda>(j, k). [j, k, p - j, p - k]) z" by (rule imageE)
  obtain j k where jk: "z = (j, k)" by (cases z)
  from z jk have "j \<in> set ?xs" "k \<in> set ?ys"
    by (auto dest: set_zip_leftD set_zip_rightD)
  then have "j \<in> set (multiIndex3_1 p)" "k \<in> set (multiIndex3_2 p)"
    by (auto dest: in_set_takeD)
  then have jp: "j \<le> p" and kp: "k \<le> p"
    by (auto dest: multiIndex3_1_le multiIndex3_2_le)
  from mz jk have mi: "mi = [j, k, p - j, p - k]" by simp
  from assms(2) have "a = 0 \<or> a = 1 \<or> a = 2 \<or> a = 3" by auto
  then show ?thesis using mi jp kp by (elim disjE) simp_all
qed

lemma length_argsort: "length (argsort xs) = length xs"
  by (simp add: argsort_def)

lemma set_argsort: "set (argsort xs) = {0..<length xs}"
proof -
  have "map snd (zip xs [0..<length xs]) = [0..<length xs]"
    by (rule map_snd_zip) simp
  then have "set (map snd (zip xs [0..<length xs])) = set [0..<length xs]"
    by (rule arg_cong)
  then have "snd ` set (zip xs [0..<length xs]) = {0..<length xs}"
    by (simp only: set_map set_upt)
  then show ?thesis
    by (simp add: argsort_def)
qed

lemma sort_match_less:
  assumes "length g = length l" and "a < length l"
  shows "sort_match g l ! a < length g"
proof -
  let ?i1 = "argsort (argsort l)"
  have l1: "length ?i1 = length l" by (simp add: length_argsort)
  have "?i1 ! a \<in> set ?i1" using assms(2) l1 by simp
  then have r: "?i1 ! a < length l" by (simp add: set_argsort length_argsort)
  have "argsort g ! (?i1 ! a) \<in> set (argsort g)"
    using r assms(1) by (simp add: length_argsort)
  then have "argsort g ! (?i1 ! a) < length g" by (simp add: set_argsort)
  then show ?thesis
    using assms(2) l1 by (simp add: sort_match_def Let_def)
qed

lemma length_lf2e_row: "i < 6 \<Longrightarrow> length (lf2e ! i) = 4"
proof -
  assume "i < 6"
  then have "i = 0 \<or> i = 1 \<or> i = 2 \<or> i = 3 \<or> i = 4 \<or> i = 5" by auto
  then show ?thesis by (elim disjE) (simp_all add: lf2e_def col_reorder_def)
qed

lemma cell_face_idx_less:
  assumes i: "i < 6" and q: "q \<in> set (cell_face_idx m p i c)"
  shows "q < (p + 1) * (p + 1)"
proof -
  let ?gfe = "map (\<lambda>j. face2edge m ! (cell2face m ! c ! i) ! j) col_reorder"
  let ?lfe = "map (\<lambda>j. cell2edge m ! c ! j) (lf2e ! i)"
  let ?idx0 = "sort_match ?gfe ?lfe"
  have lg: "length ?gfe = 4" by (simp add: col_reorder_def)
  have ll: "length ?lfe = 4" using i by (simp add: length_lf2e_row)
  have e: "length ?gfe = length ?lfe" by (simp only: lg ll)
  have z0: "0 < length ?lfe" and z1: "1 < length ?lfe" by (simp_all only: ll)
  have a0: "?idx0 ! 0 < 4" using sort_match_less[OF e z0] by (simp only: lg)
  have a1: "?idx0 ! 1 < 4" using sort_match_less[OF e z1] by (simp only: lg)
  from q obtain mi where mi: "mi \<in> set (multiIndex2d p)"
    and qq: "q = mi ! (?idx0 ! 0) * (p + 1) + mi ! (?idx0 ! 1)"
    unfolding cell_face_idx_def Let_def by auto
  have "mi ! (?idx0 ! 0) < p + 1" using multiIndex2d_entry[OF mi a0] by simp
  moreover have "mi ! (?idx0 ! 1) < p + 1" using multiIndex2d_entry[OF mi a1] by simp
  ultimately show ?thesis unfolding qq by (rule digit_bound)
qed


lemma fold_invariant:
  assumes "\<And>i t. i \<in> set js \<Longrightarrow> Inv t \<Longrightarrow> Inv (step i t)" and "Inv t0"
  shows "Inv (fold step js t0)"
  using assms by (induction js arbitrary: t0) auto

lemma entries_below_replicate: "0 < B \<Longrightarrow> entries_below B (replicate n (replicate k 0))"
  by (auto simp: entries_below_def)

lemma entries_below_mono: "entries_below B tbl \<Longrightarrow> B \<le> B' \<Longrightarrow> entries_below B' tbl"
  by (auto simp: entries_below_def intro: less_le_trans)

lemma entries_below_nth:
  "entries_below B tbl \<Longrightarrow> f < length tbl \<Longrightarrow> q < length (tbl ! f) \<Longrightarrow> tbl ! f ! q < B"
  unfolding entries_below_def by (meson nth_mem)

lemma entries_below_row:
  "entries_below B tbl \<Longrightarrow> c < length tbl \<Longrightarrow> \<forall>x \<in> set (tbl ! c). x < B"
  unfolding entries_below_def by (meson nth_mem)

lemma scatter_below:
  assumes "\<forall>x \<in> set row. x < (B::nat)" and "\<forall>x \<in> set vs. x < B"
  shows "\<forall>x \<in> set (scatter row qs vs). x < B"
  using assms set_scatter[of row qs vs] by auto

lemma entries_below_map_enumerate:
  assumes t: "entries_below B tbl"
    and g: "\<And>c row. c < length tbl \<Longrightarrow> \<forall>x \<in> set row. x < B \<Longrightarrow> \<forall>x \<in> set (g c row). x < B"
  shows "entries_below B (map (\<lambda>(c, row). g c row) (enumerate 0 tbl))"
  unfolding entries_below_def
proof (intro ballI)
  fix r x assume r: "r \<in> set (map (\<lambda>(c, row). g c row) (enumerate 0 tbl))" and x: "x \<in> set r"
  from r obtain c where c: "c < length tbl" and rr: "r = g c (tbl ! c)"
    by (auto simp: in_set_enumerate_eq)
  from t c have "\<forall>x \<in> set (tbl ! c). x < B" by (rule entries_below_row)
  from g[OF c this] rr x show "x < B" by simp
qed

lemma arange_row_below:
  assumes "r < n" and "x \<in> set (arange_row lo k r)"
  shows "x < lo + n * k"
proof -
  from assms(2) have "x < lo + r * k + k" by (simp add: arange_row_def)
  also have "\<dots> = lo + Suc r * k" by simp
  also have "\<dots> \<le> lo + n * k" using assms(1) by (intro add_left_mono mult_le_mono1) simp
  finally show ?thesis .
qed

lemma edge_to_ipoint_row:
  "e < NE m \<Longrightarrow>
   edge_to_ipoint m p ! e = [edge m ! e ! 0] @ arange_row (NN m) (p - 1) e @ [edge m ! e ! 1]"
  by (simp add: edge_to_ipoint_def NE_def nth_enumerate_eq)

lemma edge_to_ipoint_below:
  assumes n: "nodes_in_range m" and e: "e < NE m"
  shows "\<forall>x \<in> set (edge_to_ipoint m p ! e). x < faceBase m p"
proof
  fix x assume "x \<in> set (edge_to_ipoint m p ! e)"
  then have "x = edge m ! e ! 0 \<or> x = edge m ! e ! 1 \<or> x \<in> set (arange_row (NN m) (p - 1) e)"
    unfolding edge_to_ipoint_row[OF e] by auto
  then show "x < faceBase m p"
  proof (elim disjE)
    assume "x = edge m ! e ! 0"
    with n e have "x < NN m" by (simp add: nodes_in_range_def)
    then show ?thesis by (simp add: faceBase_def)
  next
    assume "x = edge m ! e ! 1"
    with n e have "x < NN m" by (simp add: nodes_in_range_def)
    then show ?thesis by (simp add: faceBase_def)
  next
    assume "x \<in> set (arange_row (NN m) (p - 1) e)"
    from arange_row_below[OF e this] show ?thesis by (simp add: faceBase_def)
  qed
qed

lemma face_edge_row_below:
  assumes n: "nodes_in_range m" and ok: "face_index_ok m" and f: "f < NF m" and i: "i < 4"
    and row: "\<forall>x \<in> set row. x < cellBase m p"
  shows "\<forall>x \<in> set (face_edge_row m p (edge_to_ipoint m p) i f row). x < cellBase m p"
proof -
  let ?ge = "face2edge m ! f ! i"
  from ok f i have ge: "?ge < NE m" by (simp add: face_index_ok_def)
  have le: "faceBase m p \<le> cellBase m p" by (simp add: cellBase_def)
  have v: "\<forall>x \<in> set (edge_to_ipoint m p ! ?ge). x < cellBase m p"
    using edge_to_ipoint_below[OF n ge, of p] le by (auto intro: less_le_trans)
  then have v': "\<forall>x \<in> set (rev (edge_to_ipoint m p ! ?ge)). x < cellBase m p" by simp
  have r1: "\<forall>x \<in> set (scatter row (face_dofidx p ! i) (edge_to_ipoint m p ! ?ge)). x < cellBase m p"
    using row v by (rule scatter_below)
  have r2: "\<forall>x \<in> set (scatter (scatter row (face_dofidx p ! i) (edge_to_ipoint m p ! ?ge))
                (face_dofidx p ! i) (rev (edge_to_ipoint m p ! ?ge))). x < cellBase m p"
    using r1 v' by (rule scatter_below)
  show ?thesis
    unfolding face_edge_row_def Let_def using r1 r2 by simp
qed

lemma face_to_ipoint_below:
  assumes n: "nodes_in_range m" and F: "face_to_ipoint m p = Inr F"
  shows "shaped (NF m) ((p + 1) * (p + 1)) F" and "entries_below (cellBase m p) F"
proof -
  let ?B = "cellBase m p"
  let ?e2ip = "edge_to_ipoint m p"
  let ?tbl0 = "replicate (NF m) (replicate ((p + 1)^2) (0::nat))"
  let ?T4 = "fold (face_edge_step m p ?e2ip) [0..<4] ?tbl0"
  let ?Inv = "\<lambda>t. shaped (NF m) ((p + 1) * (p + 1)) t \<and> entries_below ?B t"
  note Fs = face_to_ipoint_Inr[OF F]
  from n have B0: "0 < ?B" by (simp add: nodes_in_range_def cellBase_def faceBase_def)
  have inv0: "?Inv ?tbl0"
    unfolding power2_eq_square
    by (intro conjI shaped_replicate entries_below_replicate B0)
  have inv4: "?Inv ?T4"
  proof (rule fold_invariant[where Inv = ?Inv, OF _ inv0])
    fix i t assume i: "i \<in> set [0..<4]" and t: "?Inv t"
    from i have i4: "i < 4" by simp
    from t have sh: "shaped (NF m) ((p + 1) * (p + 1)) t" and eb: "entries_below ?B t" by simp_all
    have "entries_below ?B (face_edge_step m p ?e2ip i t)"
      unfolding face_edge_step_def
    proof (rule entries_below_map_enumerate[OF eb])
      fix c row assume "c < length t" and r: "\<forall>x \<in> set row. x < ?B"
      then have "c < NF m" using sh by (simp add: shaped_length)
      from face_edge_row_below[OF n Fs(1) this i4 r]
      show "\<forall>x \<in> set (face_edge_row m p ?e2ip i c row). x < ?B" .
    qed
    with sh show "?Inv (face_edge_step m p ?e2ip i t)"
      by (simp add: shaped_face_edge_step)
  qed
  then have sh4: "shaped (NF m) ((p + 1) * (p + 1)) ?T4" and eb4: "entries_below ?B ?T4"
    by simp_all
  show "shaped (NF m) ((p + 1) * (p + 1)) F"
    unfolding Fs(3) using sh4 by (rule shaped_face_interior_step)
  show "entries_below ?B F"
    unfolding Fs(3) face_interior_step_def
  proof (rule entries_below_map_enumerate[OF eb4])
    fix c row assume "c < length ?T4" and r: "\<forall>x \<in> set row. x < ?B"
    then have c: "c < NF m" using sh4 by (simp add: shaped_length)
    have "\<forall>x \<in> set (arange_row (NN m + NE m * (p - 1)) ((p - 1)^2) c). x < ?B"
      using arange_row_below[OF c] by (simp add: cellBase_def faceBase_def)
    with r show "\<forall>x \<in> set (scatter row (face_indof p)
                    (arange_row (NN m + NE m * (p - 1)) ((p - 1)^2) c)). x < ?B"
      by (rule scatter_below)
  qed
qed


lemma cell_to_ipoint_Inr_full:
  assumes "cell_to_ipoint m p = Inr T"
  shows "\<exists>F. face_to_ipoint m p = Inr F \<and> cell_index_ok m \<and> 0 < NC m \<and>
           T = cell_interior_step m p
                 (fold (cell_face_step m p F) [0..<6]
                    (replicate (NC m) (replicate ((p + 1)^3) 0)))"
proof (cases "face_to_ipoint m p")
  case (Inl e)
  with assms show ?thesis by (simp add: cell_to_ipoint_def)
next
  case (Inr F)
  with assms show ?thesis by (auto simp: cell_to_ipoint_def split: if_splits)
qed

lemma face_indof_less: "q \<in> set (face_indof p) \<Longrightarrow> q < (p + 1) * (p + 1)"
  by (simp add: face_indof_set)

lemma face_interior_step_nth:
  assumes sh: "shaped n ((p + 1) * (p + 1)) tbl" and f: "f < n"
    and t: "t < (p - 1) * (p - 1)"
  shows "face_interior_step m p tbl ! f ! (face_indof p ! t)
         = NN m + NE m * (p - 1) + f * (p - 1)^2 + t"
proof -
  let ?k = "(p - 1)^2"
  let ?lo = "NN m + NE m * (p - 1)"
  from sh f have len: "length tbl = n" "length (tbl ! f) = (p + 1) * (p + 1)"
    by (simp_all add: shaped_length shaped_nth)
  have row: "face_interior_step m p tbl ! f
             = scatter (tbl ! f) (face_indof p) (arange_row ?lo ?k f)"
    using f len by (simp add: face_interior_step_def nth_enumerate_eq)
  have tl: "t < length (face_indof p)" using t by (simp add: length_face_indof)
  have "scatter (tbl ! f) (face_indof p) (arange_row ?lo ?k f) ! (face_indof p ! t)
        = arange_row ?lo ?k f ! t"
  proof (rule nth_scatter_written)
    show "distinct (face_indof p)" unfolding face_indof_def by (rule distinct_np_where)
    show "length (face_indof p) \<le> length (arange_row ?lo ?k f)"
      by (simp add: length_face_indof length_arange_row power2_eq_square)
    show "t < length (face_indof p)" by (rule tl)
    show "face_indof p ! t < length (tbl ! f)"
      using face_indof_less[of "face_indof p ! t" p] tl len by simp
  qed
  also have "\<dots> = ?lo + f * ?k + t"
    using t by (intro nth_arange_row) (simp add: power2_eq_square)
  finally show ?thesis by (simp only: row)
qed

lemma cell_face_row_below:
  assumes shF: "shaped (NF m) ((p + 1) * (p + 1)) F" and ebF: "entries_below B F"
    and ok: "cell_index_ok m" and c: "c < NC m" and i: "i < 6"
    and row: "\<forall>x \<in> set row. x < B"
  shows "\<forall>x \<in> set (cell_face_row m p F i c row). x < B"
  unfolding cell_face_row_def
proof (rule scatter_below[OF row], intro ballI)
  let ?f = "cell2face m ! c ! i"
  fix x assume "x \<in> set (map (\<lambda>q. F ! ?f ! q) (cell_face_idx m p i c))"
  then obtain q where q: "q \<in> set (cell_face_idx m p i c)" and x: "x = F ! ?f ! q" by auto
  from ok c i have f: "?f < NF m" by (simp add: cell_index_ok_def)
  from cell_face_idx_less[OF i q] have ql: "q < length (F ! ?f)"
    using shaped_nth[OF shF f] by simp
  from f shF have fl: "?f < length F" by (simp add: shaped_length)
  show "x < B" unfolding x by (rule entries_below_nth[OF ebF fl ql])
qed

lemma cell_to_ipoint_below:
  assumes n: "nodes_in_range m" and T: "cell_to_ipoint m p = Inr T"
  shows "shaped (NC m) ((p + 1) * (p + 1) * (p + 1)) T"
    and "entries_below (totalPointCount m p) T"
proof -
  let ?B = "totalPointCount m p"
  from cell_to_ipoint_Inr_full[OF T] obtain F where F: "face_to_ipoint m p = Inr F"
    and ok: "cell_index_ok m" and nc: "0 < NC m"
    and TT: "T = cell_interior_step m p
                 (fold (cell_face_step m p F) [0..<6]
                    (replicate (NC m) (replicate ((p + 1)^3) 0)))"
    by blast
  let ?tbl0 = "replicate (NC m) (replicate ((p + 1)^3) (0::nat))"
  let ?T6 = "fold (cell_face_step m p F) [0..<6] ?tbl0"
  let ?Inv = "\<lambda>t. shaped (NC m) ((p + 1) * (p + 1) * (p + 1)) t \<and> entries_below ?B t"
  note Fb = face_to_ipoint_below[OF n F]
  have le: "cellBase m p \<le> ?B" by (simp add: totalPointCount_def)
  have ebF: "entries_below ?B F" using Fb(2) le by (rule entries_below_mono)
  from n have B0: "0 < ?B"
    by (simp add: nodes_in_range_def totalPointCount_def cellBase_def faceBase_def)
  have inv0: "?Inv ?tbl0"
    unfolding power3_eq_cube
    by (intro conjI shaped_replicate entries_below_replicate B0)
  have inv6: "?Inv ?T6"
  proof (rule fold_invariant[where Inv = ?Inv, OF _ inv0])
    fix i t assume i: "i \<in> set [0..<6]" and t: "?Inv t"
    from i have i6: "i < 6" by simp
    from t have sh: "shaped (NC m) ((p + 1) * (p + 1) * (p + 1)) t"
      and eb: "entries_below ?B t" by simp_all
    have "entries_below ?B (cell_face_step m p F i t)"
      unfolding cell_face_step_def
    proof (rule entries_below_map_enumerate[OF eb])
      fix c row assume "c < length t" and r: "\<forall>x \<in> set row. x < ?B"
      then have "c < NC m" using sh by (simp add: shaped_length)
      from cell_face_row_below[OF Fb(1) ebF ok this i6 r]
      show "\<forall>x \<in> set (cell_face_row m p F i c row). x < ?B" .
    qed
    with sh show "?Inv (cell_face_step m p F i t)"
      by (simp add: shaped_cell_face_step)
  qed
  then have sh6: "shaped (NC m) ((p + 1) * (p + 1) * (p + 1)) ?T6"
    and eb6: "entries_below ?B ?T6" by simp_all
  show "shaped (NC m) ((p + 1) * (p + 1) * (p + 1)) T"
    unfolding TT using sh6 by (rule shaped_cell_interior_step)
  show "entries_below ?B T"
    unfolding TT cell_interior_step_def
  proof (rule entries_below_map_enumerate[OF eb6])
    fix c row assume "c < length ?T6" and r: "\<forall>x \<in> set row. x < ?B"
    then have c: "c < NC m" using sh6 by (simp add: shaped_length)
    have "\<forall>x \<in> set (arange_row (NN m + NE m * (p - 1) + NF m * (p - 1)^2) ((p - 1)^3) c). x < ?B"
      using arange_row_below[OF c]
      by (simp add: totalPointCount_def cellBase_def faceBase_def)
    with r show "\<forall>x \<in> set (scatter row (cell_indof p)
                    (arange_row (NN m + NE m * (p - 1) + NF m * (p - 1)^2) ((p - 1)^3) c)). x < ?B"
      by (rule scatter_below)
  qed
qed


subsection \<open>Edges of a face: what the routine returns\<close>

lemma face_to_ipoint_returns:
  assumes "face_index_ok m" and "0 < NF m"
  shows "face_to_ipoint m p = Inr (face_interior_step m p
               (fold (face_edge_step m p (edge_to_ipoint m p)) [0..<4]
                  (replicate (NF m) (replicate ((p + 1)^2) 0))))"
  using assms by (simp add: face_to_ipoint_def)

lemma shaped_face_to_ipoint:
  assumes F: "face_to_ipoint m p = Inr F"
  shows "shaped (NF m) ((p + 1) * (p + 1)) F"
  unfolding face_to_ipoint_Inr(3)[OF F] power2_eq_square
  by (intro shaped_face_interior_step shaped_fold shaped_face_edge_step shaped_replicate)

lemma edge_to_ipoint_ends:
  assumes "1 \<le> p" and "e < NE m"
  shows "edge_to_ipoint m p ! e ! 0 = edge m ! e ! 0"
    and "edge_to_ipoint m p ! e ! p = edge m ! e ! 1"
  using assms by (simp_all add: edge_to_ipoint_row nth_append length_arange_row)

lemma edge_formula_ends:
  fixes a b :: nat
  assumes "length e = 2" and "set e = {a, b}"
  shows "(if a = e ! 0 then e ! 0 else e ! 1) = a"
    and "(if a = e ! 0 then e ! 1 else e ! 0) = b"
proof -
  from assms(1) obtain x y where e: "e = [x, y]"
    by (cases e; cases "tl e") auto
  with assms(2) show "(if a = e ! 0 then e ! 0 else e ! 1) = a"
    and "(if a = e ! 0 then e ! 1 else e ! 0) = b"
    by (auto simp: doubleton_eq_iff)
qed

lemma face_edges_joinD:
  assumes "face_edges_join m f" and "j < 4"
  shows "length (edge m ! (face2edge m ! f ! j)) = 2"
    and "set (edge m ! (face2edge m ! f ! j)) =
           {face m ! f ! (face_localEdge ! j ! 0), face m ! f ! (face_localEdge ! j ! 1)}"
  using assms by (simp_all add: face_edges_join_def list_all_iff)

lemma face_to_ipoint_last_write:
  assumes p: "1 \<le> p" and i: "i < 4" and tp: "t \<le> p"
    and F: "face_to_ipoint m p = Inr F" and f: "f < NF m"
    and later: "\<And>j. i < j \<Longrightarrow> j < 4 \<Longrightarrow> face_dofidx p ! i ! t \<notin> set (face_dofidx p ! j)"
  shows "F ! f ! (face_dofidx p ! i ! t) =
         (if face m ! f ! (face_localEdge ! i ! 0) = edge m ! (face2edge m ! f ! i) ! 0
          then edge_to_ipoint m p ! (face2edge m ! f ! i) ! t
          else edge_to_ipoint m p ! (face2edge m ! f ! i) ! (p - t))"
proof -
  let ?e2ip = "edge_to_ipoint m p"
  let ?step = "face_edge_step m p ?e2ip"
  let ?tbl0 = "replicate (NF m) (replicate ((p + 1)^2) (0::nat))"
  let ?pos = "face_dofidx p ! i ! t"
  let ?X = "fold ?step [0..<i] ?tbl0"
  let ?Y = "?step i ?X"
  let ?T4 = "fold ?step [0..<4] ?tbl0"
  note Fs = face_to_ipoint_Inr[OF F]
  have sh0: "shaped (NF m) ((p + 1) * (p + 1)) ?tbl0"
    unfolding power2_eq_square by (rule shaped_replicate)
  have shX: "shaped (NF m) ((p + 1) * (p + 1)) ?X"
    using sh0 by (intro shaped_fold shaped_face_edge_step)
  have shY: "shaped (NF m) ((p + 1) * (p + 1)) ?Y"
    using shX by (rule shaped_face_edge_step)
  have sh4: "shaped (NF m) ((p + 1) * (p + 1)) ?T4"
    using sh0 by (intro shaped_fold shaped_face_edge_step)
  have T4: "?T4 = fold ?step [Suc i..<4] ?Y"
    by (subst upt_split_at[OF i]) simp
  have ge: "face2edge m ! f ! i < NE m"
    using Fs(1) f i by (simp add: face_index_ok_def)
  have "F ! f ! ?pos = ?T4 ! f ! ?pos"
    unfolding Fs(3)
    using f sh4 face_edge_point_not_interior[OF i tp]
    by (intro face_interior_step_other) (simp_all add: shaped_length)
  also have "\<dots> = ?Y ! f ! ?pos"
    unfolding T4
  proof (rule fold_face_edge_steps_keep)
    fix j assume "j \<in> set [Suc i..<4]"
    then have "i < j" "j < 4" by auto
    then show "?pos \<notin> set (face_dofidx p ! j)" by (rule later)
  next
    show "f < length ?Y" using shY f by (simp add: shaped_length)
  qed
  also have "\<dots> = face_edge_row m p ?e2ip i f (?X ! f) ! ?pos"
    using shX f by (simp add: face_edge_step_nth shaped_length)
  also have "\<dots> = (if face m ! f ! (face_localEdge ! i ! 0) = edge m ! (face2edge m ! f ! i) ! 0
          then ?e2ip ! (face2edge m ! f ! i) ! t
          else ?e2ip ! (face2edge m ! f ! i) ! (p - t))"
    by (rule face_edge_row_written[OF i tp shaped_nth[OF shX f] length_edge_to_ipoint_row[OF p ge]])
  finally show ?thesis .
qed

lemma edge_formula_corner:
  assumes p: "1 \<le> p" and i: "i < 4" and ok: "face_index_ok m" and f: "f < NF m"
    and join: "face_edges_join m f"
  shows "(if face m ! f ! (face_localEdge ! i ! 0) = edge m ! (face2edge m ! f ! i) ! 0
          then edge_to_ipoint m p ! (face2edge m ! f ! i) ! 0
          else edge_to_ipoint m p ! (face2edge m ! f ! i) ! (p - 0))
         = face m ! f ! (face_localEdge ! i ! 0)"
    and "(if face m ! f ! (face_localEdge ! i ! 0) = edge m ! (face2edge m ! f ! i) ! 0
          then edge_to_ipoint m p ! (face2edge m ! f ! i) ! p
          else edge_to_ipoint m p ! (face2edge m ! f ! i) ! (p - p))
         = face m ! f ! (face_localEdge ! i ! 1)"
proof -
  let ?e = "face2edge m ! f ! i"
  have ge: "?e < NE m" using ok f i by (simp add: face_index_ok_def)
  note ends = edge_to_ipoint_ends[OF p ge]
  note fe = edge_formula_ends[OF face_edges_joinD[OF join i]]
  show "(if face m ! f ! (face_localEdge ! i ! 0) = edge m ! ?e ! 0
          then edge_to_ipoint m p ! ?e ! 0
          else edge_to_ipoint m p ! ?e ! (p - 0))
         = face m ! f ! (face_localEdge ! i ! 0)"
    using fe(1) by (simp add: ends split: if_splits)
  show "(if face m ! f ! (face_localEdge ! i ! 0) = edge m ! ?e ! 0
          then edge_to_ipoint m p ! ?e ! p
          else edge_to_ipoint m p ! ?e ! (p - p))
         = face m ! f ! (face_localEdge ! i ! 1)"
    using fe(2) by (simp add: ends split: if_splits)
qed

lemma face_to_ipoint_corner_nodes:
  assumes p: "1 \<le> p" and F: "face_to_ipoint m p = Inr F" and f: "f < NF m"
    and join: "face_edges_join m f"
  shows "F ! f ! 0 = face m ! f ! 0"
    and "F ! f ! (p * (p + 1)) = face m ! f ! 1"
    and "F ! f ! (p * (p + 1) + p) = face m ! f ! 2"
    and "F ! f ! p = face m ! f ! 3"
proof -
  note ok = face_to_ipoint_Inr(1)[OF F]
  have z: "(0::nat) \<le> p" and pp: "p \<le> p" by simp_all
  have i1: "(1::nat) < 4" and i2: "(2::nat) < 4" and i3: "(3::nat) < 4" by simp_all
  have d1: "p * (p + 1) div (p + 1) = p" "p * (p + 1) mod (p + 1) = 0"
    by (rule div_mult_self_is_m, simp, rule mod_mult_self2_is_0)
  have pl: "p < p + 1" by simp
  note d2 = digits[OF pl, of p]
  have l3: "\<And>t j. 3 < j \<Longrightarrow> j < 4 \<Longrightarrow> face_dofidx p ! 3 ! t \<notin> set (face_dofidx p ! j)"
    by simp
  have l2: "\<And>j. 2 < j \<Longrightarrow> j < 4 \<Longrightarrow> face_dofidx p ! 2 ! p \<notin> set (face_dofidx p ! j)"
  proof -
    fix j :: nat assume "2 < j" "j < 4"
    then have j: "j = 3" by simp
    show "face_dofidx p ! 2 ! p \<notin> set (face_dofidx p ! j)"
      unfolding j nth_face_dofidx(3)[OF pp] in_face_dofidx_iff[OF i3]
      using p d2 by simp
  qed
  have l1: "\<And>j. 1 < j \<Longrightarrow> j < 4 \<Longrightarrow> face_dofidx p ! 1 ! 0 \<notin> set (face_dofidx p ! j)"
  proof -
    fix j :: nat assume a: "1 < j" "j < 4"
    then have j: "j = 2 \<or> j = 3" by auto
    have e: "face_dofidx p ! 1 ! 0 = p * (p + 1)" using nth_face_dofidx(2)[OF z] by simp
    from j show "face_dofidx p ! 1 ! 0 \<notin> set (face_dofidx p ! j)"
      unfolding e in_face_dofidx_iff[OF a(2)]
      using p d1 by (elim disjE) simp_all
  qed
  have "F ! f ! (face_dofidx p ! 3 ! 0) = face m ! f ! (face_localEdge ! 3 ! 0)"
    using face_to_ipoint_last_write[OF p i3 z F f l3] edge_formula_corner(1)[OF p i3 ok f join]
    by simp
  then show "F ! f ! 0 = face m ! f ! 0"
    by (simp add: nth_face_dofidx(4)[OF z] face_localEdge_def)
  have "F ! f ! (face_dofidx p ! 3 ! p) = face m ! f ! (face_localEdge ! 3 ! 1)"
    using face_to_ipoint_last_write[OF p i3 pp F f l3] edge_formula_corner(2)[OF p i3 ok f join]
    by simp
  then show "F ! f ! p = face m ! f ! 3"
    by (simp add: nth_face_dofidx(4)[OF pp] face_localEdge_def)
  have "F ! f ! (face_dofidx p ! 1 ! 0) = face m ! f ! (face_localEdge ! 1 ! 0)"
    using face_to_ipoint_last_write[OF p i1 z F f l1] edge_formula_corner(1)[OF p i1 ok f join]
    by simp
  then show "F ! f ! (p * (p + 1)) = face m ! f ! 1"
    using nth_face_dofidx(2)[OF z] by (simp add: face_localEdge_def)
  have "F ! f ! (face_dofidx p ! 2 ! p) = face m ! f ! (face_localEdge ! 2 ! 1)"
    using face_to_ipoint_last_write[OF p i2 pp F f l2] edge_formula_corner(2)[OF p i2 ok f join]
    by simp
  then show "F ! f ! (p * (p + 1) + p) = face m ! f ! 2"
    using nth_face_dofidx(3)[OF pp] by (simp add: face_localEdge_def)
qed

lemma face_to_ipoint_corner:
  assumes p: "1 \<le> p" and i: "i < 4" and t: "t = 0 \<or> t = p"
    and F: "face_to_ipoint m p = Inr F" and f: "f < NF m"
    and join: "face_edges_join m f"
  shows "F ! f ! (face_dofidx p ! i ! t) =
         (if face m ! f ! (face_localEdge ! i ! 0) = edge m ! (face2edge m ! f ! i) ! 0
          then edge_to_ipoint m p ! (face2edge m ! f ! i) ! t
          else edge_to_ipoint m p ! (face2edge m ! f ! i) ! (p - t))"
proof -
  note ok = face_to_ipoint_Inr(1)[OF F]
  note n = face_to_ipoint_corner_nodes[OF p F f join]
  have z: "(0::nat) \<le> p" and pp: "p \<le> p" by simp_all
  note c0 = edge_formula_corner(1)[OF p i ok f join]
  note cp = edge_formula_corner(2)[OF p i ok f join]
  from i have ci: "i = 0 \<or> i = 1 \<or> i = 2 \<or> i = 3" by auto
  from t show ?thesis
  proof
    assume t0: "t = 0"
    have "F ! f ! (face_dofidx p ! i ! 0) = face m ! f ! (face_localEdge ! i ! 0)"
      using ci n nth_face_dofidx[OF z]
      by (elim disjE) (simp_all add: face_localEdge_def)
    then show ?thesis unfolding t0 using c0 by simp
  next
    assume tp: "t = p"
    have "F ! f ! (face_dofidx p ! i ! p) = face m ! f ! (face_localEdge ! i ! 1)"
      using ci n nth_face_dofidx[OF pp]
      by (elim disjE) (simp_all add: face_localEdge_def ac_simps)
    then show ?thesis unfolding tp using cp by simp
  qed
qed

text \<open>
  C4: for every mesh whose tables have the shapes of the data structure, whose
  \<^verbatim>\<open>face2edge\<close> holds edge numbers and that has a face, and every
  \<open>p \<ge> 1\<close>, \<^verbatim>\<open>face_to_ipoint(p)\<close> returns a table with one row of \<open>(p + 1)^2\<close> entries for
  every face. For every face \<open>f\<close> and each of its four edge slots \<open>i\<close>, the row holds at the
  \<open>p + 1\<close> positions \<open>dofidx[i]\<close> (whose multi-index has \<open>b = 0\<close>, \<open>a = p\<close>, \<open>b = p\<close>,
  \<open>a = 0\<close>) the row of the edge \<open>face2edge[f, i]\<close> in \<^verbatim>\<open>edge_to_ipoint(p)\<close>: at position \<open>t\<close>
  the entry \<open>t\<close> of that row when the face's first local end node
  \<open>face[f, localEdge[i, 0]]\<close> is the first node of the edge, the entry \<open>p - t\<close> (the reversed
  row) when it is not. This holds at the points between the corners, and at the two
  corners as well when every edge of the face joins the two local end nodes of its slot.
  It is what the pass \<open>i\<close> of the loop writes, into whatever table it is given. When the
  edge joins two different local end nodes, the test says whether the edge's node pair is
  the local pair in the local order.
\<close>

theorem face_edge_points_follow_edge:
  assumes p: "1 \<le> p" and sh: "face_tables_ok m" and ok: "face_index_ok m" and nf: "0 < NF m"
    and i: "i < 4" and t: "t \<le> p"
  shows
    "(\<exists>F. face_to_ipoint m p = Inr F \<and> shaped (NF m) ((p + 1) * (p + 1)) F \<and>
        (f < NF m \<and> ((0 < t \<and> t < p) \<or> face_edges_join m f) \<longrightarrow>
           F ! f ! (face_dofidx p ! i ! t) =
             (if face m ! f ! (face_localEdge ! i ! 0) = edge m ! (face2edge m ! f ! i) ! 0
              then edge_to_ipoint m p ! (face2edge m ! f ! i) ! t
              else edge_to_ipoint m p ! (face2edge m ! f ! i) ! (p - t)))) \<and>
     (f < length tbl \<and> length (tbl ! f) = (p + 1) * (p + 1) \<and>
      length (e2ip ! (face2edge m ! f ! i)) = p + 1 \<longrightarrow>
        face_edge_step m p e2ip i tbl ! f ! (face_dofidx p ! i ! t) =
          (if face m ! f ! (face_localEdge ! i ! 0) = edge m ! (face2edge m ! f ! i) ! 0
           then e2ip ! (face2edge m ! f ! i) ! t
           else e2ip ! (face2edge m ! f ! i) ! (p - t))) \<and>
     face_dofidx p ! i ! t = [t * (p + 1), p * (p + 1) + t, t * (p + 1) + p, t] ! i \<and>
     (length (edge m ! (face2edge m ! f ! i)) = 2 \<and>
      set (edge m ! (face2edge m ! f ! i)) =
        {face m ! f ! (face_localEdge ! i ! 0), face m ! f ! (face_localEdge ! i ! 1)} \<and>
      face m ! f ! (face_localEdge ! i ! 0) \<noteq> face m ! f ! (face_localEdge ! i ! 1) \<longrightarrow>
        (face m ! f ! (face_localEdge ! i ! 0) = edge m ! (face2edge m ! f ! i) ! 0 \<longleftrightarrow>
         edge m ! (face2edge m ! f ! i) =
           [face m ! f ! (face_localEdge ! i ! 0), face m ! f ! (face_localEdge ! i ! 1)]))"
proof (intro conjI impI)
  let ?F = "face_interior_step m p
               (fold (face_edge_step m p (edge_to_ipoint m p)) [0..<4]
                  (replicate (NF m) (replicate ((p + 1)^2) 0)))"
  have F: "face_to_ipoint m p = Inr ?F" using ok nf by (rule face_to_ipoint_returns)
  have sh: "shaped (NF m) ((p + 1) * (p + 1)) ?F" using F by (rule shaped_face_to_ipoint)
  have v: "f < NF m \<and> ((0 < t \<and> t < p) \<or> face_edges_join m f) \<longrightarrow>
           ?F ! f ! (face_dofidx p ! i ! t) =
             (if face m ! f ! (face_localEdge ! i ! 0) = edge m ! (face2edge m ! f ! i) ! 0
              then edge_to_ipoint m p ! (face2edge m ! f ! i) ! t
              else edge_to_ipoint m p ! (face2edge m ! f ! i) ! (p - t))"
  proof
    assume a: "f < NF m \<and> ((0 < t \<and> t < p) \<or> face_edges_join m f)"
    then have f: "f < NF m" by simp
    show "?F ! f ! (face_dofidx p ! i ! t) =
             (if face m ! f ! (face_localEdge ! i ! 0) = edge m ! (face2edge m ! f ! i) ! 0
              then edge_to_ipoint m p ! (face2edge m ! f ! i) ! t
              else edge_to_ipoint m p ! (face2edge m ! f ! i) ! (p - t))"
    proof (cases "0 < t \<and> t < p")
      case True
      then have "0 < t" "t < p" by simp_all
      then show ?thesis by (rule face_to_ipoint_edge_point[OF p i _ _ F f])
    next
      case False
      with a have join: "face_edges_join m f" by simp
      from False t have "t = 0 \<or> t = p" by auto
      then show ?thesis by (rule face_to_ipoint_corner[OF p i _ F f join])
    qed
  qed
  from F sh v show "\<exists>F. face_to_ipoint m p = Inr F \<and> shaped (NF m) ((p + 1) * (p + 1)) F \<and>
        (f < NF m \<and> ((0 < t \<and> t < p) \<or> face_edges_join m f) \<longrightarrow>
           F ! f ! (face_dofidx p ! i ! t) =
             (if face m ! f ! (face_localEdge ! i ! 0) = edge m ! (face2edge m ! f ! i) ! 0
              then edge_to_ipoint m p ! (face2edge m ! f ! i) ! t
              else edge_to_ipoint m p ! (face2edge m ! f ! i) ! (p - t)))"
    by (intro exI[of _ ?F] conjI)
next
  assume a: "f < length tbl \<and> length (tbl ! f) = (p + 1) * (p + 1) \<and>
      length (e2ip ! (face2edge m ! f ! i)) = p + 1"
  then have "face_edge_step m p e2ip i tbl ! f = face_edge_row m p e2ip i f (tbl ! f)"
    by (simp add: face_edge_step_nth)
  moreover from a have "face_edge_row m p e2ip i f (tbl ! f) ! (face_dofidx p ! i ! t) =
          (if face m ! f ! (face_localEdge ! i ! 0) = edge m ! (face2edge m ! f ! i) ! 0
           then e2ip ! (face2edge m ! f ! i) ! t
           else e2ip ! (face2edge m ! f ! i) ! (p - t))"
    by (intro face_edge_row_written[OF i t]) simp_all
  ultimately show "face_edge_step m p e2ip i tbl ! f ! (face_dofidx p ! i ! t) =
          (if face m ! f ! (face_localEdge ! i ! 0) = edge m ! (face2edge m ! f ! i) ! 0
           then e2ip ! (face2edge m ! f ! i) ! t
           else e2ip ! (face2edge m ! f ! i) ! (p - t))"
    by simp
next
  from i have "i = 0 \<or> i = 1 \<or> i = 2 \<or> i = 3" by auto
  then show "face_dofidx p ! i ! t = [t * (p + 1), p * (p + 1) + t, t * (p + 1) + p, t] ! i"
    using nth_face_dofidx[OF t] by (elim disjE) simp_all
next
  assume "length (edge m ! (face2edge m ! f ! i)) = 2 \<and>
      set (edge m ! (face2edge m ! f ! i)) =
        {face m ! f ! (face_localEdge ! i ! 0), face m ! f ! (face_localEdge ! i ! 1)} \<and>
      face m ! f ! (face_localEdge ! i ! 0) \<noteq> face m ! f ! (face_localEdge ! i ! 1)"
  then show "face m ! f ! (face_localEdge ! i ! 0) = edge m ! (face2edge m ! f ! i) ! 0 \<longleftrightarrow>
         edge m ! (face2edge m ! f ! i) =
           [face m ! f ! (face_localEdge ! i ! 0), face m ! f ! (face_localEdge ! i ! 1)]"
    using orientation_test by blast
qed

lemma one_hex_face_order_three:
  "face_to_ipoint one_hex_ds 3 = Inr
     [[0, 8, 9, 1, 14, 32, 33, 10, 15, 34, 35, 11, 3, 13, 12, 2],
      [4, 30, 31, 7, 24, 36, 37, 29, 25, 38, 39, 28, 5, 26, 27, 6],
      [0, 14, 15, 3, 16, 40, 41, 22, 17, 42, 43, 23, 4, 30, 31, 7],
      [1, 18, 19, 5, 10, 44, 45, 26, 11, 46, 47, 27, 2, 20, 21, 6],
      [0, 16, 17, 4, 8, 48, 49, 24, 9, 50, 51, 25, 1, 18, 19, 5],
      [2, 20, 21, 6, 12, 52, 53, 28, 13, 54, 55, 29, 3, 22, 23, 7]]"
  by code_simp

lemma one_hex_face_edges_join: "face_edges_join one_hex_ds 0"
  by code_simp

lemma one_hex_face_tables_ok: "face_tables_ok one_hex_ds"
  by code_simp

theorem face_edge_points_follow_edge_witness:
  "face_to_ipoint one_hex_ds 3 = Inr
     [[0, 8, 9, 1, 14, 32, 33, 10, 15, 34, 35, 11, 3, 13, 12, 2],
      [4, 30, 31, 7, 24, 36, 37, 29, 25, 38, 39, 28, 5, 26, 27, 6],
      [0, 14, 15, 3, 16, 40, 41, 22, 17, 42, 43, 23, 4, 30, 31, 7],
      [1, 18, 19, 5, 10, 44, 45, 26, 11, 46, 47, 27, 2, 20, 21, 6],
      [0, 16, 17, 4, 8, 48, 49, 24, 9, 50, 51, 25, 1, 18, 19, 5],
      [2, 20, 21, 6, 12, 52, 53, 28, 13, 54, 55, 29, 3, 22, 23, 7]] \<and>
   [[0, 8, 9, 1, 14, 32, 33, 10, 15, 34, 35, 11, 3, 13, 12, 2],
    [4, 30, 31, 7, 24, 36, 37, 29, 25, 38, 39, 28, 5, 26, 27, 6],
    [0, 14, 15, 3, 16, 40, 41, 22, 17, 42, 43, 23, 4, 30, 31, 7],
    [1, 18, 19, 5, 10, 44, 45, 26, 11, 46, 47, 27, 2, 20, 21, 6],
    [0, 16, 17, 4, 8, 48, 49, 24, 9, 50, 51, 25, 1, 18, 19, 5],
    [2, 20, 21, 6, 12, 52, 53, 28, 13, 54, 55, 29, 3, 22, 23, 7]]
      ! 0 ! (face_dofidx 3 ! 1 ! 1) = edge_to_ipoint one_hex_ds 3 ! 2 ! 2 \<and>
   [[0, 8, 9, 1, 14, 32, 33, 10, 15, 34, 35, 11, 3, 13, 12, 2],
    [4, 30, 31, 7, 24, 36, 37, 29, 25, 38, 39, 28, 5, 26, 27, 6],
    [0, 14, 15, 3, 16, 40, 41, 22, 17, 42, 43, 23, 4, 30, 31, 7],
    [1, 18, 19, 5, 10, 44, 45, 26, 11, 46, 47, 27, 2, 20, 21, 6],
    [0, 16, 17, 4, 8, 48, 49, 24, 9, 50, 51, 25, 1, 18, 19, 5],
    [2, 20, 21, 6, 12, 52, 53, 28, 13, 54, 55, 29, 3, 22, 23, 7]]
      ! 0 ! (face_dofidx 3 ! 1 ! 3) = edge_to_ipoint one_hex_ds 3 ! 2 ! 0 \<and>
   face_edge_step one_hex_ds 3 (edge_to_ipoint one_hex_ds 3) 1
      (replicate 6 (replicate 16 0)) ! 0 ! (face_dofidx 3 ! 1 ! 1)
      = edge_to_ipoint one_hex_ds 3 ! 2 ! 2 \<and>
   face_dofidx 3 ! 1 ! 1 = 13 \<and> face_dofidx 3 ! 1 ! 3 = 15 \<and>
   edge_to_ipoint one_hex_ds 3 ! 2 = [2, 12, 13, 3] \<and>
   edge one_hex_ds ! 2 = [2, 3] \<and> face one_hex_ds ! 0 = [0, 3, 2, 1] \<and>
   edge one_hex_ds ! 2 \<noteq> [3, 2]"
proof -
  let ?F = "[[0, 8, 9, 1, 14, 32, 33, 10, 15, 34, 35, 11, 3, 13, 12, 2],
    [4, 30, 31, 7, 24, 36, 37, 29, 25, 38, 39, 28, 5, 26, 27, 6],
    [0, 14, 15, 3, 16, 40, 41, 22, 17, 42, 43, 23, 4, 30, 31, 7],
    [1, 18, 19, 5, 10, 44, 45, 26, 11, 46, 47, 27, 2, 20, 21, 6],
    [0, 16, 17, 4, 8, 48, 49, 24, 9, 50, 51, 25, 1, 18, 19, 5],
    [2, 20, 21, 6, 12, 52, 53, 28, 13, 54, 55, 29, 3, 22, 23, 7::nat]]"
  let ?Z = "replicate 6 (replicate 16 (0::nat))"
  let ?E = "edge_to_ipoint one_hex_ds 3"
  note R = one_hex_face_order_three
  have p: "1 \<le> (3::nat)" and i: "(1::nat) < 4" and t1: "(1::nat) \<le> 3" and t3: "(3::nat) \<le> 3"
    by simp_all
  have ok: "face_index_ok one_hex_ds" using R by (rule face_to_ipoint_Inr(1))
  have nf: "0 < NF one_hex_ds" using R by (rule face_to_ipoint_Inr(2))
  note ft1 = face_edge_points_follow_edge[OF p one_hex_face_tables_ok ok nf i t1,
      where f = 0 and tbl = ?Z and e2ip = ?E]
  note ft3 = face_edge_points_follow_edge[OF p one_hex_face_tables_ok ok nf i t3,
      where f = 0 and tbl = ?Z and e2ip = ?E]
  have g: "face2edge one_hex_ds ! 0 ! 1 = 2" by code_simp
  have c: "face one_hex_ds ! 0 ! (face_localEdge ! 1 ! 0) \<noteq> edge one_hex_ds ! 2 ! 0"
    by code_simp
  have h1: "0 < length ?Z \<and> length (?Z ! 0) = (3 + 1) * (3 + 1) \<and>
            length (?E ! (face2edge one_hex_ds ! 0 ! 1)) = 3 + 1"
    by code_simp
  have h2: "0 < NF one_hex_ds \<and> (((0::nat) < 1 \<and> (1::nat) < 3) \<or> face_edges_join one_hex_ds 0)"
    using nf by simp
  have h3: "0 < NF one_hex_ds \<and> (((0::nat) < 3 \<and> (3::nat) < 3) \<or> face_edges_join one_hex_ds 0)"
    using nf one_hex_face_edges_join by simp
  have h4: "length (edge one_hex_ds ! (face2edge one_hex_ds ! 0 ! 1)) = 2 \<and>
      set (edge one_hex_ds ! (face2edge one_hex_ds ! 0 ! 1)) =
        {face one_hex_ds ! 0 ! (face_localEdge ! 1 ! 0), face one_hex_ds ! 0 ! (face_localEdge ! 1 ! 1)} \<and>
      face one_hex_ds ! 0 ! (face_localEdge ! 1 ! 0) \<noteq> face one_hex_ds ! 0 ! (face_localEdge ! 1 ! 1)"
    by code_simp
  from ft1[THEN conjunct1] obtain F1
    where F1: "face_to_ipoint one_hex_ds 3 = Inr F1 \<and> shaped (NF one_hex_ds) ((3 + 1) * (3 + 1)) F1 \<and>
        (0 < NF one_hex_ds \<and> (((0::nat) < 1 \<and> (1::nat) < 3) \<or> face_edges_join one_hex_ds 0) \<longrightarrow>
           F1 ! 0 ! (face_dofidx 3 ! 1 ! 1) =
             (if face one_hex_ds ! 0 ! (face_localEdge ! 1 ! 0) = edge one_hex_ds ! (face2edge one_hex_ds ! 0 ! 1) ! 0
              then edge_to_ipoint one_hex_ds 3 ! (face2edge one_hex_ds ! 0 ! 1) ! 1
              else edge_to_ipoint one_hex_ds 3 ! (face2edge one_hex_ds ! 0 ! 1) ! (3 - 1)))" ..
  from ft3[THEN conjunct1] obtain F3
    where F3: "face_to_ipoint one_hex_ds 3 = Inr F3 \<and> shaped (NF one_hex_ds) ((3 + 1) * (3 + 1)) F3 \<and>
        (0 < NF one_hex_ds \<and> (((0::nat) < 3 \<and> (3::nat) < 3) \<or> face_edges_join one_hex_ds 0) \<longrightarrow>
           F3 ! 0 ! (face_dofidx 3 ! 1 ! 3) =
             (if face one_hex_ds ! 0 ! (face_localEdge ! 1 ! 0) = edge one_hex_ds ! (face2edge one_hex_ds ! 0 ! 1) ! 0
              then edge_to_ipoint one_hex_ds 3 ! (face2edge one_hex_ds ! 0 ! 1) ! 3
              else edge_to_ipoint one_hex_ds 3 ! (face2edge one_hex_ds ! 0 ! 1) ! (3 - 3)))" ..
  have e1: "F1 = ?F" using F1[THEN conjunct1] R by simp
  have e3: "F3 = ?F" using F3[THEN conjunct1] R by simp
  note r1 = F1[THEN conjunct2, THEN conjunct2, THEN mp, OF h2]
  note r3 = F3[THEN conjunct2, THEN conjunct2, THEN mp, OF h3]
  note s1 = ft1[THEN conjunct2, THEN conjunct1, THEN mp, OF h1]
  note s4 = ft1[THEN conjunct2, THEN conjunct2, THEN conjunct2, THEN mp, OF h4]
  have a1: "?F ! 0 ! (face_dofidx 3 ! 1 ! 1) = ?E ! 2 ! 2"
    using r1 c g unfolding e1 by simp
  have a3: "?F ! 0 ! (face_dofidx 3 ! 1 ! 3) = ?E ! 2 ! 0"
    using r3 c g unfolding e3 by simp
  have b: "face_edge_step one_hex_ds 3 ?E 1 ?Z ! 0 ! (face_dofidx 3 ! 1 ! 1) = ?E ! 2 ! 2"
    using s1 c g by simp
  have d: "face_dofidx 3 ! 1 ! 1 = 13" by code_simp
  have d3: "face_dofidx 3 ! 1 ! 3 = 15" by code_simp
  have e: "?E ! 2 = [2, 12, 13, 3]" by code_simp
  have e2: "edge one_hex_ds ! 2 = [2, 3]" by code_simp
  have f0: "face one_hex_ds ! 0 = [0, 3, 2, 1]" by code_simp
  have n0: "face one_hex_ds ! 0 ! (face_localEdge ! 1 ! 0) = 3" by code_simp
  have n1: "face one_hex_ds ! 0 ! (face_localEdge ! 1 ! 1) = 2" by code_simp
  have k: "edge one_hex_ds ! 2 \<noteq> [3, 2]"
    using s4 c g n0 n1 by simp
  from R a1 a3 b d d3 e e2 f0 k show ?thesis by (intro conjI)
qed

subsection \<open>The tiers of the global indices\<close>

lemma edge_to_ipoint_interior:
  assumes "e < NE m" and "t < p - 1"
  shows "edge_to_ipoint m p ! e ! (t + 1) = NN m + e * (p - 1) + t"
  using assms by (simp add: edge_to_ipoint_row nth_append length_arange_row nth_arange_row)

lemma face_to_ipoint_interior:
  assumes F: "face_to_ipoint m p = Inr F" and f: "f < NF m" and t: "t < (p - 1) * (p - 1)"
  shows "F ! f ! (face_indof p ! t) = faceBase m p + f * (p - 1)^2 + t"
proof -
  note Fs = face_to_ipoint_Inr[OF F]
  have "shaped (NF m) ((p + 1) * (p + 1))
          (fold (face_edge_step m p (edge_to_ipoint m p)) [0..<4]
             (replicate (NF m) (replicate ((p + 1)^2) 0)))"
    unfolding power2_eq_square by (intro shaped_fold shaped_face_edge_step shaped_replicate)
  from face_interior_step_nth[OF this f t] show ?thesis
    unfolding Fs(3) faceBase_def .
qed

lemma cell_to_ipoint_interior:
  assumes T: "cell_to_ipoint m p = Inr T" and c: "c < NC m"
    and t: "t < (p - 1) * (p - 1) * (p - 1)"
  shows "T ! c ! (cell_indof p ! t) = cellBase m p + c * (p - 1)^3 + t"
proof -
  from cell_to_ipoint_Inr[OF T] obtain tbl
    where sh: "shaped (NC m) ((p + 1) * (p + 1) * (p + 1)) tbl"
      and TT: "T = cell_interior_step m p tbl" by blast
  from cell_interior_step_nth[OF sh c t] show ?thesis
    unfolding TT cellBase_def faceBase_def .
qed

lemma number_of_global_ipoints_nat:
  "1 \<le> p \<Longrightarrow> number_of_global_ipoints m (int p) = Inr (int (totalPointCount m p))"
  by (simp add: number_of_global_ipoints_def totalPointCount_def cellBase_def faceBase_def
      of_nat_diff)

lemma ne_empty_if_mem: "x \<in> S \<Longrightarrow> S \<noteq> {}"
  by (rule notI) (simp only: empty_iff)

lemma last_interior_index:
  fixes b k n :: nat
  assumes "0 < k" and "0 < n"
  shows "b + (n - 1) * k + (k - 1) = b + n * k - 1"
  using assms by (cases n; cases k) simp_all

lemma Max_plus_one_iff:
  fixes S :: "nat set"
  assumes fin: "finite S" and ne: "S \<noteq> {}" and b: "\<forall>x \<in> S. x < B"
  shows "Max S + 1 = B \<longleftrightarrow> B - 1 \<in> S"
proof
  assume "Max S + 1 = B"
  then have "Max S = B - 1" by simp
  moreover have "Max S \<in> S" using fin ne by (rule Max_in)
  ultimately show "B - 1 \<in> S" by simp
next
  assume a: "B - 1 \<in> S"
  then have "B - 1 \<le> Max S" using fin by (intro Max_ge)
  moreover have "Max S < B" using Max_in[OF fin ne] b by blast
  ultimately show "Max S + 1 = B" by simp
qed

subsection \<open>Matching two rows by sorting\<close>

lemma map_insort_key: "map f (insort_key f y zs) = insort (f y) (map f zs)"
  by (induction zs) simp_all

lemma map_sort_key: "map f (sort_key f ys) = sort (map f ys)"
  by (induction ys) (simp_all add: map_insort_key)

lemma argsort_sorts: "map (\<lambda>i. xs ! i) (argsort xs) = sort xs"
proof -
  let ?ys = "zip xs [0..<length xs]"
  let ?zs = "sort_key fst ?ys"
  have "map fst ?ys = xs" by (rule map_fst_zip) simp
  then have e: "map fst ?zs = sort xs" by (simp only: map_sort_key)
  have "map (\<lambda>i. xs ! i) (argsort xs) = map (\<lambda>z. xs ! snd z) ?zs"
    by (simp add: argsort_def comp_def)
  also have "\<dots> = map fst ?zs"
  proof (rule map_cong[OF refl])
    fix z assume "z \<in> set ?zs"
    then have "z \<in> set ?ys" by simp
    then obtain k where "k < length xs" and "z = (xs ! k, k)"
      by (auto simp: set_zip)
    then show "xs ! snd z = fst z" by simp
  qed
  finally show ?thesis using e by simp
qed

lemma distinct_argsort: "distinct (argsort xs)"
proof (rule card_distinct)
  show "card (set (argsort xs)) = length (argsort xs)"
    by (simp add: set_argsort length_argsort)
qed

lemma sort_permutation:
  assumes "distinct s" and "set s = {0..<length s}"
  shows "sort s = [0..<length s]"
proof (rule sorted_distinct_set_unique)
  show "sorted (sort s)" by simp
  show "distinct (sort s)" using assms(1) by simp
  show "sorted [0..<length s]" by simp
  show "distinct [0..<length s]" by simp
  show "set (sort s) = set [0..<length s]" using assms(2) by simp
qed

lemma argsort_inverse:
  assumes "r < length xs"
  shows "argsort xs ! (argsort (argsort xs) ! r) = r"
proof -
  let ?s = "argsort xs"
  have l: "length ?s = length xs" by (rule length_argsort)
  have "sort ?s = [0..<length ?s]"
    by (rule sort_permutation) (simp_all add: distinct_argsort set_argsort length_argsort)
  then have "map (\<lambda>i. ?s ! i) (argsort ?s) = [0..<length xs]"
    by (simp only: argsort_sorts l)
  then have "map (\<lambda>i. ?s ! i) (argsort ?s) ! r = [0..<length xs] ! r" by simp
  moreover have "r < length (argsort ?s)" using assms by (simp add: length_argsort)
  ultimately show ?thesis using assms by simp
qed

lemma sort_match_finds:
  assumes d: "distinct g" and s: "set g = set l" and e: "length g = length l"
    and r: "r < length l"
  shows "g ! (sort_match g l ! r) = l ! r"
proof -
  let ?k = "argsort (argsort l) ! r"
  have "card (set l) = length l" using d s e by (simp add: distinct_card[symmetric])
  then have dl: "distinct l" by (rule card_distinct)
  have ss: "sort g = sort l"
  proof (rule sorted_distinct_set_unique)
    show "sorted (sort g)" "sorted (sort l)" by simp_all
    show "distinct (sort g)" using d by simp
    show "distinct (sort l)" using dl by simp
    show "set (sort g) = set (sort l)" using s by simp
  qed
  have "?k \<in> set (argsort (argsort l))" using r by (simp add: length_argsort)
  then have k: "?k < length l" by (simp add: set_argsort length_argsort)
  have kg: "?k < length (argsort g)" using k e by (simp add: length_argsort)
  have kl: "?k < length (argsort l)" using k by (simp add: length_argsort)
  have "sort_match g l ! r = argsort g ! ?k"
    using r by (simp add: sort_match_def Let_def length_argsort)
  then have "g ! (sort_match g l ! r) = map (\<lambda>i. g ! i) (argsort g) ! ?k"
    using kg by simp
  also have "\<dots> = sort l ! ?k" by (simp only: argsort_sorts ss)
  also have "\<dots> = map (\<lambda>i. l ! i) (argsort l) ! ?k" by (simp only: argsort_sorts)
  also have "\<dots> = l ! (argsort l ! ?k)" using kl by simp
  also have "\<dots> = l ! r" using argsort_inverse[OF r] by simp
  finally show ?thesis .
qed

subsection \<open>The order \<open>p = 1\<close> on tables that agree\<close>

lemma list4: "length xs = 4 \<Longrightarrow> \<exists>a b c d. xs = [a, b, c, d]"
  by (auto simp: length_Suc_conv eval_nat_numeral)

lemma list8: "length xs = 8 \<Longrightarrow> \<exists>a b c d e f g h. xs = [a, b, c, d, e, f, g, h]"
  by (auto simp: length_Suc_conv eval_nat_numeral)

lemma cell_dofidx_one:
  "cell_dofidx 1 = [[0, 2, 4, 6], [1, 3, 5, 7], [0, 1, 2, 3], [4, 5, 6, 7],
                    [0, 1, 4, 5], [2, 3, 6, 7]]"
  by code_simp

lemma cell_indof_one: "cell_indof 1 = []"
  by code_simp

lemma multiIndex2d_one:
  "multiIndex2d 1 = [[0, 0, 1, 1], [0, 1, 1, 0], [1, 0, 0, 1], [1, 1, 0, 0]]"
  by code_simp

lemma lf2e_rows: "lf2e ! 4 = [4, 0, 5, 8]" "lf2e ! 5 = [7, 2, 6, 10]"
  by code_simp+

lemma idx_permutation:
  assumes a: "a < 4" and b: "b < 4"
    and n: "a \<noteq> b" "{a, b} \<noteq> {0, 2}" "{a, b} \<noteq> {1, 3}"
  shows "set (map (\<lambda>mi. mi ! a * (1 + 1) + mi ! b) (multiIndex2d 1)) = {0, 1, 2, 3}"
proof -
  from a have ca: "a = 0 \<or> a = 1 \<or> a = 2 \<or> a = 3" by auto
  from b have cb: "b = 0 \<or> b = 1 \<or> b = 2 \<or> b = 3" by auto
  from ca cb n show ?thesis
    unfolding multiIndex2d_one
    by (elim disjE) (auto simp: doubleton_eq_iff)
qed

lemma distinct_of_same_set:
  assumes "distinct g" and "set g = set l" and "length g = length l"
  shows "distinct l"
proof (rule card_distinct)
  show "card (set l) = length l" using assms by (simp add: distinct_card[symmetric])
qed

lemma cell_tables_agreeD:
  assumes "cell_tables_agree m c"
  shows "length (cell m ! c) = 8"
    and "k < 12 \<Longrightarrow> edge_of_cell_ok m c k"
    and "i < 6 \<Longrightarrow> face_of_cell_ok m c i"
  using assms by (simp_all add: cell_tables_agree_def list_all_iff)

lemma cell_face_idx_one:
  assumes ag: "cell_tables_agree m c" and i: "i = 4 \<or> i = 5"
  shows "set (cell_face_idx m 1 i c) = {0, 1, 2, 3}"
proof -
  let ?f = "cell2face m ! c ! i"
  let ?g = "map (\<lambda>j. face2edge m ! ?f ! j) col_reorder"
  let ?l = "map (\<lambda>j. cell2edge m ! c ! j) (lf2e ! i)"
  let ?pi = "sort_match ?g ?l"
  from i have i6: "i < 6" by auto
  note fo = cell_tables_agreeD(3)[OF ag i6, unfolded face_of_cell_ok_def]
  from fo[THEN conjunct1] obtain n0 n1 n2 n3 where fn: "face m ! ?f = [n0, n1, n2, n3]"
    using list4 by blast
  from fo[THEN conjunct2, THEN conjunct2, THEN conjunct2, THEN conjunct2, THEN conjunct1]
  obtain e0 e1 e2 e3 where fe: "face2edge m ! ?f = [e0, e1, e2, e3]"
    using list4 by blast
  have dn: "distinct [n0, n1, n2, n3]"
    using fo[THEN conjunct2, THEN conjunct1] by (simp only: fn)
  have join: "face_edges_join m ?f"
    using fo[THEN conjunct2, THEN conjunct2, THEN conjunct1] .
  have sfe: "set (face2edge m ! ?f) = set (map (\<lambda>k. cell2edge m ! c ! k) (localFace2edge ! i))"
    using fo[THEN conjunct2, THEN conjunct2, THEN conjunct2, THEN conjunct2, THEN conjunct2] .
  have E0: "set (edge m ! e0) = {n0, n1}"
    using face_edges_joinD(2)[OF join, of 0] by (simp add: fn fe face_localEdge_def)
  have E1: "set (edge m ! e1) = {n1, n2}"
    using face_edges_joinD(2)[OF join, of 1] by (simp add: fn fe face_localEdge_def)
  have E2: "set (edge m ! e2) = {n3, n2}"
    using face_edges_joinD(2)[OF join, of 2] by (simp add: fn fe face_localEdge_def)
  have E3: "set (edge m ! e3) = {n0, n3}"
    using face_edges_joinD(2)[OF join, of 3] by (simp add: fn fe face_localEdge_def)
  have g: "?g = [e3, e0, e1, e2]" by (simp add: col_reorder_def fe)
  have d30: "e3 \<noteq> e0" using E3 E0 dn by (auto simp: doubleton_eq_iff)
  have d31: "e3 \<noteq> e1" using E3 E1 dn by (auto simp: doubleton_eq_iff)
  have d32: "e3 \<noteq> e2" using E3 E2 dn by (auto simp: doubleton_eq_iff)
  have d01: "e0 \<noteq> e1" using E0 E1 dn by (auto simp: doubleton_eq_iff)
  have d02: "e0 \<noteq> e2" using E0 E2 dn by (auto simp: doubleton_eq_iff)
  have d12: "e1 \<noteq> e2" using E1 E2 dn by (auto simp: doubleton_eq_iff)
  have dg: "distinct ?g" unfolding g using d30 d31 d32 d01 d02 d12 by simp
  have "set ?g = set (face2edge m ! ?f)" by (auto simp: col_reorder_def fe)
  also have "\<dots> = set ?l"
    unfolding sfe using i by (elim disjE) (auto simp: localFace2edge_def lf2e_rows)
  finally have sl: "set ?g = set ?l" .
  have len_l: "length ?l = 4" using i6 by (simp add: length_lf2e_row)
  have ll: "length ?g = length ?l" unfolding len_l by (simp add: col_reorder_def)
  have dl: "distinct ?l" using dg sl ll by (rule distinct_of_same_set)
  have r0: "0 < length ?l" and r1: "1 < length ?l" by (simp_all only: len_l)
  have m0: "?g ! (?pi ! 0) = ?l ! 0" using dg sl ll r0 by (rule sort_match_finds)
  have m1: "?g ! (?pi ! 1) = ?l ! 1" using dg sl ll r1 by (rule sort_match_finds)
  have lg: "length ?g = 4" by (simp add: col_reorder_def)
  have b0: "?pi ! 0 < 4" using sort_match_less[OF ll r0] by (simp only: lg)
  have b1: "?pi ! 1 < 4" using sort_match_less[OF ll r1] by (simp only: lg)
  have l01: "?l ! 0 \<noteq> ?l ! 1"
    using nth_eq_iff_index_eq[OF dl r0 r1] by simp
  have ne: "?pi ! 0 \<noteq> ?pi ! 1"
  proof
    assume "?pi ! 0 = ?pi ! 1"
    then have "?g ! (?pi ! 0) = ?g ! (?pi ! 1)" by simp
    with m0 m1 l01 show False by simp
  qed
  have "\<exists>x. x \<in> set (edge m ! (?l ! 0)) \<and> x \<in> set (edge m ! (?l ! 1))"
  proof -
    have k: "(4::nat) < 12" "(0::nat) < 12" "(7::nat) < 12" "(2::nat) < 12" by simp_all
    note eo = cell_tables_agreeD(2)[OF ag, unfolded edge_of_cell_ok_def]
    from i show ?thesis
    proof
      assume i4: "i = 4"
      have "cell m ! c ! 0 \<in> set (edge m ! (cell2edge m ! c ! 4))"
        using eo[OF k(1)] by (simp add: localEdge_def)
      moreover have "cell m ! c ! 0 \<in> set (edge m ! (cell2edge m ! c ! 0))"
        using eo[OF k(2)] by (simp add: localEdge_def)
      ultimately show ?thesis unfolding i4 lf2e_rows by (intro exI[of _ "cell m ! c ! 0"]) simp
    next
      assume i5: "i = 5"
      have "cell m ! c ! 3 \<in> set (edge m ! (cell2edge m ! c ! 7))"
        using eo[OF k(3)] by (simp add: localEdge_def)
      moreover have "cell m ! c ! 3 \<in> set (edge m ! (cell2edge m ! c ! 2))"
        using eo[OF k(4)] by (simp add: localEdge_def)
      ultimately show ?thesis unfolding i5 lf2e_rows by (intro exI[of _ "cell m ! c ! 3"]) simp
    qed
  qed
  then obtain x where x0: "x \<in> set (edge m ! (?g ! (?pi ! 0)))"
    and x1: "x \<in> set (edge m ! (?g ! (?pi ! 1)))"
    unfolding m0 m1 by blast
  have G: "?g ! 0 = e3" "?g ! 1 = e0" "?g ! 2 = e1" "?g ! 3 = e2"
    unfolding g by simp_all
  have o02: "{?pi ! 0, ?pi ! 1} \<noteq> {0, 2}"
  proof
    assume "{?pi ! 0, ?pi ! 1} = {0, 2}"
    then have "(?pi ! 0 = 0 \<and> ?pi ! 1 = 2) \<or> (?pi ! 0 = 2 \<and> ?pi ! 1 = 0)"
      by (simp add: doubleton_eq_iff)
    then have "x \<in> set (edge m ! e3) \<and> x \<in> set (edge m ! e1)"
      using x0 x1 G by (elim disjE conjE) simp_all
    then show False using dn by (auto simp: E3 E1)
  qed
  have o13: "{?pi ! 0, ?pi ! 1} \<noteq> {1, 3}"
  proof
    assume "{?pi ! 0, ?pi ! 1} = {1, 3}"
    then have "(?pi ! 0 = 1 \<and> ?pi ! 1 = 3) \<or> (?pi ! 0 = 3 \<and> ?pi ! 1 = 1)"
      by (simp add: doubleton_eq_iff)
    then have "x \<in> set (edge m ! e0) \<and> x \<in> set (edge m ! e2)"
      using x0 x1 G by (elim disjE conjE) simp_all
    then show False using dn by (auto simp: E0 E2)
  qed
  show ?thesis
    unfolding cell_face_idx_def Let_def
    using b0 b1 ne o02 o13 by (rule idx_permutation)
qed

lemma cell_face_step_nth:
  "c < length tbl \<Longrightarrow> cell_face_step m p f2ip i tbl ! c = cell_face_row m p f2ip i c (tbl ! c)"
  by (simp add: cell_face_step_def nth_enumerate_eq)

lemma length_cell_face_idx: "length (cell_face_idx m p i c) = length (multiIndex2d p)"
  by (simp add: cell_face_idx_def Let_def)

lemma cell_interior_step_none:
  "cell_indof p = [] \<Longrightarrow> c < length tbl \<Longrightarrow> cell_interior_step m p tbl ! c = tbl ! c"
  by (simp add: cell_interior_step_def nth_enumerate_eq)

lemma cell_row_order_one:
  assumes T: "cell_to_ipoint m 1 = Inr T" and F: "face_to_ipoint m 1 = Inr F"
    and c: "c < NC m"
  shows "set (T ! c) =
           (\<lambda>q. F ! (cell2face m ! c ! 4) ! q) ` set (cell_face_idx m 1 4 c) \<union>
           (\<lambda>q. F ! (cell2face m ! c ! 5) ! q) ` set (cell_face_idx m 1 5 c)"
proof -
  let ?step = "cell_face_step m 1 F"
  let ?tbl0 = "replicate (NC m) (replicate ((1 + 1)^3) (0::nat))"
  let ?X = "fold ?step [0..<4] ?tbl0"
  from cell_to_ipoint_Inr_full[OF T] F
  have TT: "T = cell_interior_step m 1 (fold ?step [0..<6] ?tbl0)" by auto
  have shX: "shaped (NC m) ((1 + 1)^3) ?X"
    by (intro shaped_fold shaped_cell_face_step shaped_replicate)
  have sh4: "shaped (NC m) ((1 + 1)^3) (?step 4 ?X)"
    using shX by (rule shaped_cell_face_step)
  have sh5: "shaped (NC m) ((1 + 1)^3) (?step 5 (?step 4 ?X))"
    using sh4 by (rule shaped_cell_face_step)
  have six: "[0..<6] = [0..<4] @ [4, 5]" by code_simp
  have Y: "fold ?step [0..<6] ?tbl0 = ?step 5 (?step 4 ?X)"
    unfolding six by simp
  have cX: "c < length ?X" using shX c by (simp add: shaped_length)
  have c4: "c < length (?step 4 ?X)" using sh4 c by (simp add: shaped_length)
  have c5: "c < length (?step 5 (?step 4 ?X))" using sh5 c by (simp add: shaped_length)
  have e8: "((1::nat) + 1)^3 = 8" by code_simp
  have "length (?X ! c) = 8" using shaped_nth[OF shX c] unfolding e8 .
  then obtain x0 x1 x2 x3 x4 x5 x6 x7 where X: "?X ! c = [x0, x1, x2, x3, x4, x5, x6, x7]"
    using list8 by blast
  have "length (cell_face_idx m 1 4 c) = 4"
    unfolding length_cell_face_idx multiIndex2d_one by simp
  then obtain a0 a1 a2 a3 where A: "cell_face_idx m 1 4 c = [a0, a1, a2, a3]"
    using list4 by blast
  have "length (cell_face_idx m 1 5 c) = 4"
    unfolding length_cell_face_idx multiIndex2d_one by simp
  then obtain b0 b1 b2 b3 where B: "cell_face_idx m 1 5 c = [b0, b1, b2, b3]"
    using list4 by blast
  have "T ! c = ?step 5 (?step 4 ?X) ! c"
    unfolding TT Y using cell_indof_one c5 by (rule cell_interior_step_none)
  also have "\<dots> = cell_face_row m 1 F 5 c (cell_face_row m 1 F 4 c (?X ! c))"
    using c4 cX by (simp add: cell_face_step_nth)
  also have "\<dots> = [F ! (cell2face m ! c ! 4) ! a0, F ! (cell2face m ! c ! 4) ! a1,
                    F ! (cell2face m ! c ! 5) ! b0, F ! (cell2face m ! c ! 5) ! b1,
                    F ! (cell2face m ! c ! 4) ! a2, F ! (cell2face m ! c ! 4) ! a3,
                    F ! (cell2face m ! c ! 5) ! b2, F ! (cell2face m ! c ! 5) ! b3]"
    unfolding X cell_face_row_def A B cell_dofidx_one by simp
  finally show ?thesis unfolding A B by auto
qed

lemma cell_row_nodes:
  assumes T: "cell_to_ipoint m 1 = Inr T" and c: "c < NC m"
    and ag: "cell_tables_agree m c"
  shows "set (T ! c) = set (cell m ! c)"
proof -
  from cell_to_ipoint_Inr_full[OF T] obtain F where F: "face_to_ipoint m 1 = Inr F"
    and ok: "cell_index_ok m" by blast
  have p: "1 \<le> (1::nat)" by simp
  have face_nodes: "(\<lambda>q. F ! (cell2face m ! c ! i) ! q) ` {0, 1, 2, 3} =
                    set (map (\<lambda>v. cell m ! c ! v) (localFace ! i))" if i: "i < 6" for i
  proof -
    let ?f = "cell2face m ! c ! i"
    note fo = cell_tables_agreeD(3)[OF ag i, unfolded face_of_cell_ok_def]
    have f: "?f < NF m" using ok c i by (simp add: cell_index_ok_def)
    have join: "face_edges_join m ?f"
      using fo[THEN conjunct2, THEN conjunct2, THEN conjunct1] .
    from fo[THEN conjunct1] obtain n0 n1 n2 n3 where fn: "face m ! ?f = [n0, n1, n2, n3]"
      using list4 by blast
    note n = face_to_ipoint_corner_nodes[OF p F f join]
    have "(\<lambda>q. F ! ?f ! q) ` {0, 1, 2, 3} = {F ! ?f ! 0, F ! ?f ! 1, F ! ?f ! 2, F ! ?f ! 3}"
      by simp
    also have "\<dots> = set (face m ! ?f)"
    proof -
      have n0: "F ! ?f ! 0 = n0" using n(1) by (simp add: fn)
      have n1: "F ! ?f ! 2 = n1" using n(2) by (simp add: fn numeral_2_eq_2)
      have n2: "F ! ?f ! 3 = n2" using n(3) by (simp add: fn numeral_3_eq_3)
      have n3: "F ! ?f ! 1 = n3" using n(4) by (simp add: fn numeral_3_eq_3)
      show ?thesis unfolding n0 n1 n2 n3 fn by auto
    qed
    also have "\<dots> = set (map (\<lambda>v. cell m ! c ! v) (localFace ! i))"
      using fo[THEN conjunct2, THEN conjunct2, THEN conjunct2, THEN conjunct1] .
    finally show ?thesis .
  qed
  have i4: "(4::nat) < 6" and i5: "(5::nat) < 6" by simp_all
  from cell_tables_agreeD(1)[OF ag] obtain v0 v1 v2 v3 v4 v5 v6 v7
    where C: "cell m ! c = [v0, v1, v2, v3, v4, v5, v6, v7]"
    using list8 by blast
  have "set (T ! c) =
          set (map (\<lambda>v. cell m ! c ! v) (localFace ! 4)) \<union>
          set (map (\<lambda>v. cell m ! c ! v) (localFace ! 5))"
    unfolding cell_row_order_one[OF T F c]
      cell_face_idx_one[OF ag disjI1[OF refl]] cell_face_idx_one[OF ag disjI2[OF refl]]
      face_nodes[OF i4] face_nodes[OF i5] ..
  also have "\<dots> = set (cell m ! c)"
    unfolding C by (auto simp: localFace_def)
  finally show ?thesis .
qed

lemma cell_to_ipoint_returns:
  assumes "face_index_ok m" and "0 < NF m" and "cell_index_ok m" and "0 < NC m"
  shows "\<exists>T. cell_to_ipoint m p = Inr T"
  using assms by (simp add: cell_to_ipoint_def face_to_ipoint_def)

lemma set_concat_nth: "set (concat xs) = (\<Union>i \<in> {..<length xs}. set (xs ! i))"
proof -
  have e: "set xs = (\<lambda>i. xs ! i) ` {..<length xs}" by (auto simp: set_conv_nth)
  have "set (concat xs) = \<Union> (set ` set xs)" by (rule set_concat)
  also have "\<dots> = \<Union> (set ` ((\<lambda>i. xs ! i) ` {..<length xs}))" using e by simp
  finally show ?thesis by (simp only: image_image)
qed

lemma tiers_of_table:
  assumes p: "1 \<le> p" and n: "nodes_in_range m" and T: "cell_to_ipoint m p = Inr T"
  shows "shaped (NC m) ((p + 1) * (p + 1) * (p + 1)) T"
    and "entries_below (totalPointCount m p) T"
    and "\<forall>c < NC m. \<forall>t < (p - 1) * (p - 1) * (p - 1).
           T ! c ! (cell_indof p ! t) = cellBase m p + c * (p - 1)^3 + t"
    and "Max (set (concat T)) + 1 = totalPointCount m p \<longleftrightarrow>
           totalPointCount m p - 1 \<in> set (concat T)"
    and "2 \<le> p \<longrightarrow> Max (set (concat T)) + 1 = totalPointCount m p"
proof -
  let ?B = "totalPointCount m p"
  let ?S = "set (concat T)"
  note Tb = cell_to_ipoint_below[OF n T]
  from cell_to_ipoint_Inr[OF T] have nc: "0 < NC m" by blast
  have lenT: "length T = NC m" using Tb(1) by (rule shaped_length)
  have row0: "length (T ! 0) = (p + 1) * (p + 1) * (p + 1)"
    using Tb(1) nc by (rule shaped_nth)
  show "shaped (NC m) ((p + 1) * (p + 1) * (p + 1)) T" by (rule Tb(1))
  show a5: "entries_below ?B T" by (rule Tb(2))
  show a8: "\<forall>c < NC m. \<forall>t < (p - 1) * (p - 1) * (p - 1).
        T ! c ! (cell_indof p ! t) = cellBase m p + c * (p - 1)^3 + t"
    using cell_to_ipoint_interior[OF T] by blast
  have fin: "finite ?S" by simp
  have "T ! 0 \<in> set T" using nc lenT by simp
  moreover have "T ! 0 ! 0 \<in> set (T ! 0)" using row0 by simp
  ultimately have "T ! 0 ! 0 \<in> ?S" by auto
  then have ne: "?S \<noteq> {}" by (rule ne_empty_if_mem)
  have bd: "\<forall>x \<in> ?S. x < ?B" using a5 by (auto simp: entries_below_def)
  show a9: "Max ?S + 1 = ?B \<longleftrightarrow> ?B - 1 \<in> ?S"
    using fin ne bd by (rule Max_plus_one_iff)
  show "2 \<le> p \<longrightarrow> Max ?S + 1 = ?B"
  proof
    assume p2: "2 \<le> p"
    let ?k = "(p - 1) * (p - 1) * (p - 1)"
    let ?c = "NC m - 1"
    from p2 have "0 < p - 1" by simp
    then have k0: "0 < ?k" by simp
    have c: "?c < NC m" using nc by simp
    have t: "?k - 1 < ?k" using k0 by simp
    let ?pos = "cell_indof p ! (?k - 1)"
    have v: "T ! ?c ! ?pos = cellBase m p + ?c * (p - 1)^3 + (?k - 1)"
      using cell_to_ipoint_interior[OF T c t] .
    have "cellBase m p + ?c * ?k + (?k - 1) = cellBase m p + NC m * ?k - 1"
      using k0 nc by (rule last_interior_index)
    then have "cellBase m p + ?c * ?k + (?k - 1) = ?B - 1"
      by (simp only: totalPointCount_def power3_eq_cube)
    with v have v': "T ! ?c ! ?pos = ?B - 1" by (simp add: power3_eq_cube)
    have "?k - 1 < length (cell_indof p)" using t by (simp add: length_cell_indof)
    then have "?pos \<in> set (cell_indof p)" by (rule nth_mem)
    then have "?pos < length (T ! ?c)"
      using cell_indof_less shaped_nth[OF Tb(1) c] by simp
    then have "T ! ?c ! ?pos \<in> set (T ! ?c)" by (rule nth_mem)
    moreover have "T ! ?c \<in> set T" using c lenT by simp
    ultimately have "T ! ?c ! ?pos \<in> ?S" by auto
    with v' have "?B - 1 \<in> ?S" by simp
    with a9 show "Max ?S + 1 = ?B" by simp
  qed
qed

lemma order_one_nodes:
  assumes n: "nodes_in_range m" and T: "cell_to_ipoint m 1 = Inr T" and ag: "tables_agree m"
  shows "\<forall>c < NC m. set (T ! c) = set (cell m ! c)"
    and "Max (set (concat T)) + 1 = totalPointCount m 1 \<longleftrightarrow>
           NN m - 1 \<in> set (concat (cell m))"
proof -
  have p: "1 \<le> (1::nat)" by simp
  have rows: "set (T ! c) = set (cell m ! c)" if c: "c < NC m" for c
  proof -
    from ag c have "cell_tables_agree m c" by (simp add: tables_agree_def list_all_iff)
    with T c show ?thesis by (rule cell_row_nodes)
  qed
  then show "\<forall>c < NC m. set (T ! c) = set (cell m ! c)" by blast
  have lenT: "length T = NC m" using tiers_of_table(1)[OF p n T] by (rule shaped_length)
  have lenC: "length (cell m) = NC m" by (simp add: NC_def)
  have "set (concat T) = (\<Union>c \<in> {..<NC m}. set (T ! c))"
    unfolding set_concat_nth lenT ..
  also have "\<dots> = (\<Union>c \<in> {..<NC m}. set (cell m ! c))"
    using rows by simp
  also have "\<dots> = set (concat (cell m))"
    unfolding set_concat_nth lenC ..
  finally have s: "set (concat T) = set (concat (cell m))" .
  have B: "totalPointCount m 1 = NN m"
    by (simp add: totalPointCount_def cellBase_def faceBase_def)
  show "Max (set (concat T)) + 1 = totalPointCount m 1 \<longleftrightarrow>
           NN m - 1 \<in> set (concat (cell m))"
    using tiers_of_table(4)[OF p n T] unfolding B s .
qed

text \<open>
  C2, amended: for every mesh whose tables have the shapes of the data structure, whose
  edge nodes are node indices below \<open>NN > 0\<close>, whose \<^verbatim>\<open>face2edge\<close> and \<^verbatim>\<open>cell2face\<close> hold edge and face numbers, and that has a face and a cell,
  and every \<open>p \<ge> 1\<close>. The count of \<^verbatim>\<open>number_of_global_ipoints\<close> is \<open>cellBase + NC (p - 1)^3\<close>
  with \<open>faceBase = NN + NE (p - 1)\<close> and \<open>cellBase = faceBase + NF (p - 1)^2\<close>; the interior
  points of edge \<open>e\<close>, face \<open>f\<close> and cell \<open>c\<close> are numbered contiguously from
  \<open>NN + e (p - 1)\<close>, \<open>faceBase + f (p - 1)^2\<close> and \<open>cellBase + c (p - 1)^3\<close>;
  \<^verbatim>\<open>cell_to_ipoint(p)\<close> returns a table with a row of \<open>(p + 1)^3\<close> entries for every cell,
  and every entry is below the count. The maximum entry plus one is the count for every
  \<open>p \<ge> 2\<close>. For \<open>p = 1\<close>, on tables that agree with each other, the row of a cell holds
  exactly the nodes of the cell, and the maximum entry plus one is the count \<open>NN\<close> exactly
  when the last node belongs to a cell.
\<close>

theorem global_index_tiers:
  assumes p: "1 \<le> p" and n: "nodes_in_range m" and sh: "cell_tables_ok m"
    and fo: "face_index_ok m" and nf: "0 < NF m"
    and co: "cell_index_ok m" and nc: "0 < NC m"
  shows
    "number_of_global_ipoints m (int p) = Inr (int (totalPointCount m p)) \<and>
     faceBase m p = NN m + NE m * (p - 1) \<and>
     cellBase m p = faceBase m p + NF m * (p - 1)^2 \<and>
     totalPointCount m p = cellBase m p + NC m * (p - 1)^3 \<and>
     (\<forall>e < NE m. \<forall>t < p - 1. edge_to_ipoint m p ! e ! (t + 1) = NN m + e * (p - 1) + t) \<and>
     (\<exists>F. face_to_ipoint m p = Inr F \<and>
        (\<forall>f < NF m. \<forall>t < (p - 1) * (p - 1).
           F ! f ! (face_indof p ! t) = faceBase m p + f * (p - 1)^2 + t)) \<and>
     (\<exists>T. cell_to_ipoint m p = Inr T \<and>
        shaped (NC m) ((p + 1) * (p + 1) * (p + 1)) T \<and>
        entries_below (totalPointCount m p) T \<and>
        (\<forall>c < NC m. \<forall>t < (p - 1) * (p - 1) * (p - 1).
           T ! c ! (cell_indof p ! t) = cellBase m p + c * (p - 1)^3 + t) \<and>
        (2 \<le> p \<longrightarrow> Max (set (concat T)) + 1 = totalPointCount m p) \<and>
        (p = 1 \<and> tables_agree m \<longrightarrow>
           (\<forall>c < NC m. set (T ! c) = set (cell m ! c)) \<and>
           (Max (set (concat T)) + 1 = totalPointCount m p \<longleftrightarrow>
              NN m - 1 \<in> set (concat (cell m)))))"
proof -
  from cell_to_ipoint_returns[OF fo nf co nc] obtain T where T: "cell_to_ipoint m p = Inr T" ..
  from face_to_ipoint_returns[OF fo nf] obtain F where F: "face_to_ipoint m p = Inr F" ..
  note tt = tiers_of_table[OF p n T]
  have a1: "number_of_global_ipoints m (int p) = Inr (int (totalPointCount m p))"
    using p by (rule number_of_global_ipoints_nat)
  have a2: "faceBase m p = NN m + NE m * (p - 1)" by (simp add: faceBase_def)
  have a3: "cellBase m p = faceBase m p + NF m * (p - 1)^2" by (simp add: cellBase_def)
  have a4: "totalPointCount m p = cellBase m p + NC m * (p - 1)^3"
    by (simp add: totalPointCount_def)
  have a5: "\<forall>e < NE m. \<forall>t < p - 1. edge_to_ipoint m p ! e ! (t + 1) = NN m + e * (p - 1) + t"
    using edge_to_ipoint_interior by blast
  have "\<forall>f < NF m. \<forall>t < (p - 1) * (p - 1).
           F ! f ! (face_indof p ! t) = faceBase m p + f * (p - 1)^2 + t"
    using face_to_ipoint_interior[OF F] by blast
  with F have a6: "\<exists>F. face_to_ipoint m p = Inr F \<and>
        (\<forall>f < NF m. \<forall>t < (p - 1) * (p - 1).
           F ! f ! (face_indof p ! t) = faceBase m p + f * (p - 1)^2 + t)"
    by (intro exI[of _ F] conjI)
  have b: "p = 1 \<and> tables_agree m \<longrightarrow>
           (\<forall>c < NC m. set (T ! c) = set (cell m ! c)) \<and>
           (Max (set (concat T)) + 1 = totalPointCount m p \<longleftrightarrow>
              NN m - 1 \<in> set (concat (cell m)))"
  proof
    assume h: "p = 1 \<and> tables_agree m"
    then have p1: "p = 1" and ag: "tables_agree m" by simp_all
    from T have T1: "cell_to_ipoint m 1 = Inr T" unfolding p1 .
    from order_one_nodes[OF n T1 ag]
    show "(\<forall>c < NC m. set (T ! c) = set (cell m ! c)) \<and>
           (Max (set (concat T)) + 1 = totalPointCount m p \<longleftrightarrow>
              NN m - 1 \<in> set (concat (cell m)))"
      unfolding p1 by (intro conjI)
  qed
  from T tt(1) tt(2) tt(3) tt(5) b
  have a7: "\<exists>T. cell_to_ipoint m p = Inr T \<and>
        shaped (NC m) ((p + 1) * (p + 1) * (p + 1)) T \<and>
        entries_below (totalPointCount m p) T \<and>
        (\<forall>c < NC m. \<forall>t < (p - 1) * (p - 1) * (p - 1).
           T ! c ! (cell_indof p ! t) = cellBase m p + c * (p - 1)^3 + t) \<and>
        (2 \<le> p \<longrightarrow> Max (set (concat T)) + 1 = totalPointCount m p) \<and>
        (p = 1 \<and> tables_agree m \<longrightarrow>
           (\<forall>c < NC m. set (T ! c) = set (cell m ! c)) \<and>
           (Max (set (concat T)) + 1 = totalPointCount m p \<longleftrightarrow>
              NN m - 1 \<in> set (concat (cell m))))"
    by (intro exI[of _ T] conjI)
  from a1 a2 a3 a4 a5 a6 a7 show ?thesis by (intro conjI)
qed

text \<open>
  C2, as stated: for every mesh and every \<open>p \<ge> 1\<close> the maximum index in
  \<^verbatim>\<open>cell_to_ipoint(p)\<close> plus one is the count of \<^verbatim>\<open>number_of_global_ipoints(p)\<close>. The
  constructor builds the mesh of the unit cube with a ninth node that no cell uses; for
  \<open>p = 1\<close> the table holds the indices 0 to 7, the maximum plus one is 8 and the count
  is 9.
\<close>

theorem max_index_below_total:
  "cell_to_ipoint spare_ds 1 = Inr [[0, 4, 3, 7, 1, 5, 2, 6]] \<and>
   number_of_global_ipoints spare_ds 1 = Inr 9 \<and>
   Max (set (concat [[0, 4, 3, 7, 1, 5, 2, 6::nat]])) + 1 = 8 \<and>
   HexahedronMesh spare_node from_one_hexahedron_cell = Inr \<lparr>node = spare_node, ds = spare_ds\<rparr>"
  by code_simp

lemma one_hex_nodes_in_range: "nodes_in_range one_hex_ds"
  by code_simp

lemma twisted_nodes_in_range: "nodes_in_range twisted_ds"
  by code_simp

lemma twisted_tables_agree: "tables_agree twisted_ds"
  by code_simp

lemma one_hex_cell_tables_ok: "cell_tables_ok one_hex_ds"
  by code_simp

lemma twisted_cell_tables_ok: "cell_tables_ok twisted_ds"
  by code_simp

lemma twisted_order_one:
  "cell_to_ipoint twisted_ds 1 = Inr [[0, 4, 3, 7, 1, 5, 2, 6], [8, 10, 2, 1, 9, 11, 6, 5]]"
  by code_simp

theorem global_index_tiers_witness:
  "cell_to_ipoint one_hex_ds 2 = Inr
     [[0, 12, 4, 11, 22, 19, 3, 15, 7, 8, 24, 16, 20, 26, 21, 10, 25, 18,
       1, 13, 5, 9, 23, 17, 2, 14, 6]] \<and>
   number_of_global_ipoints one_hex_ds (int 2) = Inr (int (totalPointCount one_hex_ds 2)) \<and>
   totalPointCount one_hex_ds 2 = 27 \<and>
   entries_below (totalPointCount one_hex_ds 2)
     [[0, 12, 4, 11, 22, 19, 3, 15, 7, 8, 24, 16, 20, 26, 21, 10, 25, 18,
       1, 13, 5, 9, 23, 17, 2, 14, 6]] \<and>
   Max (set (concat
     [[0, 12, 4, 11, 22, 19, 3, 15, 7, 8, 24, 16, 20, 26, 21, 10, 25, 18,
       1, 13, 5, 9, 23, 17, 2, 14, 6]])) + 1 = totalPointCount one_hex_ds 2 \<and>
   cell_to_ipoint twisted_ds 1 = Inr [[0, 4, 3, 7, 1, 5, 2, 6], [8, 10, 2, 1, 9, 11, 6, 5]] \<and>
   totalPointCount twisted_ds 1 = 12 \<and>
   Max (set (concat [[0, 4, 3, 7, 1, 5, 2, 6], [8, 10, 2, 1, 9, 11, 6, 5]])) + 1
     = totalPointCount twisted_ds 1 \<and>
   set ([[0, 4, 3, 7, 1, 5, 2, 6], [8, 10, 2, 1, 9, 11, 6, 5]] ! 1) = set (cell twisted_ds ! 1)"
proof -
  let ?A = "[[0, 12, 4, 11, 22, 19, 3, 15, 7, 8, 24, 16, 20, 26, 21, 10, 25, 18,
       1, 13, 5, 9, 23, 17, 2, 14, 6::nat]]"
  let ?B = "[[0, 4, 3, 7, 1, 5, 2, 6], [8, 10, 2, 1, 9, 11, 6, 5::nat]]"
  have p2: "1 \<le> (2::nat)" and p22: "2 \<le> (2::nat)" and p1: "1 \<le> (1::nat)" by simp_all
  note RA = one_hex_order_two
  note RB = twisted_order_one
  from cell_to_ipoint_Inr_full[OF RA] obtain FA where FA: "face_to_ipoint one_hex_ds 2 = Inr FA"
    and coA: "cell_index_ok one_hex_ds" and ncA: "0 < NC one_hex_ds" by blast
  from cell_to_ipoint_Inr_full[OF RB] obtain FB where FB: "face_to_ipoint twisted_ds 1 = Inr FB"
    and coB: "cell_index_ok twisted_ds" and ncB: "0 < NC twisted_ds" by blast
  note foA = face_to_ipoint_Inr(1)[OF FA] and nfA = face_to_ipoint_Inr(2)[OF FA]
  note foB = face_to_ipoint_Inr(1)[OF FB] and nfB = face_to_ipoint_Inr(2)[OF FB]
  note tA = global_index_tiers[OF p2 one_hex_nodes_in_range one_hex_cell_tables_ok
                               foA nfA coA ncA]
  note tB = global_index_tiers[OF p1 twisted_nodes_in_range twisted_cell_tables_ok
                               foB nfB coB ncB]
  note lastA = tA[THEN conjunct2, THEN conjunct2, THEN conjunct2, THEN conjunct2,
                  THEN conjunct2, THEN conjunct2]
  note lastB = tB[THEN conjunct2, THEN conjunct2, THEN conjunct2, THEN conjunct2,
                  THEN conjunct2, THEN conjunct2]
  from lastA obtain TA where TA: "cell_to_ipoint one_hex_ds 2 = Inr TA"
    and eA: "entries_below (totalPointCount one_hex_ds 2) TA"
    and mA: "2 \<le> (2::nat) \<longrightarrow> Max (set (concat TA)) + 1 = totalPointCount one_hex_ds 2"
    by (elim exE conjE)
  from lastB obtain TB where TB: "cell_to_ipoint twisted_ds 1 = Inr TB"
    and mB: "(1::nat) = 1 \<and> tables_agree twisted_ds \<longrightarrow>
           (\<forall>c < NC twisted_ds. set (TB ! c) = set (cell twisted_ds ! c)) \<and>
           (Max (set (concat TB)) + 1 = totalPointCount twisted_ds 1 \<longleftrightarrow>
              NN twisted_ds - 1 \<in> set (concat (cell twisted_ds)))"
    by (elim exE conjE)
  have TAe: "TA = ?A" using TA RA by simp
  have TBe: "TB = ?B" using TB RB by simp
  have hB: "(1::nat) = 1 \<and> tables_agree twisted_ds" using twisted_tables_agree by simp
  note rB = mB[THEN mp, OF hB]
  have c1: "1 < NC twisted_ds" by code_simp
  have last: "NN twisted_ds - 1 \<in> set (concat (cell twisted_ds))" by code_simp
  have a: "number_of_global_ipoints one_hex_ds (int 2) = Inr (int (totalPointCount one_hex_ds 2))"
    using tA[THEN conjunct1] .
  have b: "totalPointCount one_hex_ds 2 = 27" by code_simp
  have c: "entries_below (totalPointCount one_hex_ds 2) ?A" using eA unfolding TAe .
  have d: "Max (set (concat ?A)) + 1 = totalPointCount one_hex_ds 2"
    using mA[THEN mp, OF p22] unfolding TAe .
  have e: "totalPointCount twisted_ds 1 = 12" by code_simp
  have f: "Max (set (concat ?B)) + 1 = totalPointCount twisted_ds 1"
    using rB[THEN conjunct2] last unfolding TBe by simp
  have g: "set (?B ! 1) = set (cell twisted_ds ! 1)"
    using rB[THEN conjunct1, THEN spec, THEN mp, OF c1] unfolding TBe .
  from RA a b c d RB e f g show ?thesis by (intro conjI)
qed


end
